theory Spec2Isabelle
  imports Complex_Main
begin

section \<open>Data model of \<open>src/main.cpp\<close>\<close>

text \<open>
  The C++ type \<open>float\<close> is modelled by the reals: every arithmetic operation of the
  source is taken exactly, rounding is not modelled. \<open>ImVec2\<close> is a pair of such
  numbers. Indices (\<open>int\<close> in the source, never negative where they are stored) are
  natural numbers; the one \<open>int\<close> that the caller chooses, the argument of
  \<open>predictLinksForNode\<close>, is an integer.
\<close>

type_synonym ImVec2 = "real \<times> real"

record Node =
  position :: ImVec2
  label :: string
  selected :: bool
  dragging :: bool
  drag_offset :: ImVec2
  radius :: real
  connection_count :: int

record Edge =
  efrom :: nat
  eto :: nat
  predicate :: string

record Triple =
  node_name :: string
  edge_name :: string
  name_of_component :: string
  severity :: string

definition severityToWeight :: "string \<Rightarrow> real" where
  "severityToWeight s =
     (if s = ''high'' then 0.8
      else if s = ''medium'' then 0.4
      else if s = ''low'' then 0.1
      else 0.0)"

text \<open>
  \<open>std::set<int>\<close> is a strictly ascending list of its members; \<open>set_insert\<close> is
  \<open>std::set::insert\<close>. \<open>std::map<int, float>\<close> is a list of key/value pairs in
  ascending key order; \<open>map_upd k f\<close> is \<open>m[k] = f(m[k])\<close>, where \<open>operator[]\<close>
  first creates a missing key with value 0, and \<open>map_get\<close> reads \<open>m[k]\<close>.
\<close>

fun set_insert :: "nat \<Rightarrow> nat list \<Rightarrow> nat list" where
  "set_insert x [] = [x]"
| "set_insert x (y # ys) =
     (if x = y then y # ys
      else if x < y then x # y # ys
      else y # set_insert x ys)"

fun map_upd :: "nat \<Rightarrow> (real \<Rightarrow> real) \<Rightarrow> (nat \<times> real) list \<Rightarrow> (nat \<times> real) list" where
  "map_upd k f [] = [(k, f 0)]"
| "map_upd k f ((k', v) # m) =
     (if k = k' then (k', f v) # m
      else if k < k' then (k, f 0) # (k', v) # m
      else (k', v) # map_upd k f m)"

definition map_get :: "(nat \<times> real) list \<Rightarrow> nat \<Rightarrow> real" where
  "map_get m k = (case map_of m k of Some v \<Rightarrow> v | None \<Rightarrow> 0)"

text \<open>
  The fields of \<open>class GraphVisualizer\<close> that the analytics and the physics read or
  write. The panning flags and the font pointer belong to the rendering code only.
\<close>

record GraphVisualizer =
  nodes :: "Node list"
  edges :: "Edge list"
  adjacency_matrix :: "real list list"
  adjacency_list :: "nat list list"
  page_rank_scores :: "(nat \<times> real) list"
  selected_node :: int
  velocities :: "ImVec2 list"
  pan_offset :: ImVec2
  page_rank_average :: real
  page_rank_std_dev :: real

section \<open>\<open>LoadTriples\<close>\<close>

text \<open>
  A default-constructed \<open>Node\<close>. The source leaves \<open>radius\<close> uninitialised until the
  last loop of \<open>LoadTriples\<close> writes it; the model starts it at 0.
\<close>

definition default_Node :: Node where
  "default_Node =
     \<lparr>position = (0, 0), label = [], selected = False, dragging = False,
      drag_offset = (0, 0), radius = 0, connection_count = 0\<rparr>"

text \<open>
  First loop: \<open>node_map\<close>, \<open>next_node_index\<close> and \<open>nodes\<close> are threaded through the
  triples. \<open>add_node\<close> is one of the two \<open>if (node_map.find(..) == node_map.end())\<close>
  blocks.
\<close>

type_synonym node_map = "string \<Rightarrow> nat option"

definition add_node :: "string \<Rightarrow> node_map \<times> nat \<times> Node list \<Rightarrow> node_map \<times> nat \<times> Node list" where
  "add_node name st =
     (case st of (m, next_node_index, ns) \<Rightarrow>
        if m name = None
        then (m(name \<mapsto> next_node_index), next_node_index + 1,
              ns @ [default_Node\<lparr>label := name\<rparr>])
        else st)"

definition scan_triple :: "Triple \<Rightarrow> node_map \<times> nat \<times> Node list \<Rightarrow> node_map \<times> nat \<times> Node list" where
  "scan_triple t st = add_node (name_of_component t) (add_node (node_name t) st)"

definition collect_nodes :: "Triple list \<Rightarrow> node_map \<times> nat \<times> Node list" where
  "collect_nodes triples = fold scan_triple triples (Map.empty, 0, [])"

text \<open>\<open>node_map[name]\<close>: \<open>operator[]\<close> yields 0 for a key that is not in the map.\<close>

definition lookup :: "node_map \<Rightarrow> string \<Rightarrow> nat" where
  "lookup m name = (case m name of Some i \<Rightarrow> i | None \<Rightarrow> 0)"

definition mat_set :: "real list list \<Rightarrow> nat \<Rightarrow> nat \<Rightarrow> real \<Rightarrow> real list list" where
  "mat_set M i j w = M[i := (M ! i)[j := w]]"

definition set_add :: "nat list list \<Rightarrow> nat \<Rightarrow> nat \<Rightarrow> nat list list" where
  "set_add al i j = al[i := set_insert j (al ! i)]"

definition bump :: "nat \<Rightarrow> Node list \<Rightarrow> Node list" where
  "bump i ns = ns[i := (ns ! i)\<lparr>connection_count := connection_count (ns ! i) + 1\<rparr>]"

text \<open>The body of the loop of lines 117 to 132, for one triple.\<close>

definition link_triple :: "node_map \<Rightarrow> Triple \<Rightarrow> GraphVisualizer \<Rightarrow> GraphVisualizer" where
  "link_triple m t g =
     (let from_idx = lookup m (node_name t);
          to_idx = lookup m (name_of_component t)
      in if from_idx \<noteq> to_idx
         then
           (let weight = severityToWeight (severity t)
            in g\<lparr>edges := edges g @ [\<lparr>efrom = from_idx, eto = to_idx, predicate = edge_name t\<rparr>],
                 adjacency_matrix :=
                   mat_set (mat_set (adjacency_matrix g) from_idx to_idx weight)
                     to_idx from_idx weight,
                 adjacency_list := set_add (set_add (adjacency_list g) from_idx to_idx) to_idx from_idx,
                 nodes := bump to_idx (bump from_idx (nodes g))\<rparr>)
         else g)"

text \<open>
  The state before the loop over the triples: the containers are cleared and sized, the
  positions drawn. \<open>rnd k\<close> is the value of the \<open>k\<close>-th call of \<open>std::rand()\<close> made by
  \<open>LoadTriples\<close>; the source calls it twice per node (the order of the two calls inside
  one \<open>ImVec2(..)\<close> is the compiler's choice, the model takes x first).
\<close>

definition place_nodes :: "(nat \<Rightarrow> nat) \<Rightarrow> Node list \<Rightarrow> Node list" where
  "place_nodes rnd ns =
     map (\<lambda>i. (ns ! i)\<lparr>position := (100 + real (rnd (2 * i) mod 600),
                                     100 + real (rnd (2 * i + 1) mod 400)),
                       connection_count := 0\<rparr>)
       [0..<length ns]"

definition init_graph :: "(nat \<Rightarrow> nat) \<Rightarrow> Triple list \<Rightarrow> GraphVisualizer \<Rightarrow> GraphVisualizer" where
  "init_graph rnd triples g =
     (case collect_nodes triples of (m, next_node_index, ns) \<Rightarrow>
        (let n = length ns
         in g\<lparr>nodes := place_nodes rnd ns,
              edges := [],
              velocities := replicate n (0, 0),
              selected_node := - 1,
              pan_offset := (0, 0),
              page_rank_scores := [],
              adjacency_matrix := replicate n (replicate n 0),
              adjacency_list := replicate n []\<rparr>))"

definition link_all :: "(nat \<Rightarrow> nat) \<Rightarrow> Triple list \<Rightarrow> GraphVisualizer \<Rightarrow> GraphVisualizer" where
  "link_all rnd triples g =
     fold (link_triple (fst (collect_nodes triples))) triples (init_graph rnd triples g)"

definition max_connections :: "Node list \<Rightarrow> int" where
  "max_connections ns =
     fold (\<lambda>nd mx. if connection_count nd > mx then connection_count nd else mx) ns 0"

definition set_radius :: "int \<Rightarrow> Node \<Rightarrow> Node" where
  "set_radius mx nd =
     (if mx > 0
      then nd\<lparr>radius := 25 + 25 * (real_of_int (connection_count nd) / real_of_int mx)\<rparr>
      else nd\<lparr>radius := 25\<rparr>)"

definition LoadTriples :: "(nat \<Rightarrow> nat) \<Rightarrow> Triple list \<Rightarrow> GraphVisualizer \<Rightarrow> GraphVisualizer" where
  "LoadTriples rnd triples g =
     (let g' = link_all rnd triples g
      in g'\<lparr>nodes := map (set_radius (max_connections (nodes g'))) (nodes g')\<rparr>)"

text \<open>The index that \<open>LoadTriples\<close> gives a label.\<close>

definition index_of :: "Triple list \<Rightarrow> string \<Rightarrow> nat" where
  "index_of triples name = lookup (fst (collect_nodes triples)) name"

text \<open>
  Vocabulary for the properties of \<open>LoadTriples\<close>: the edge a triple becomes, whether a
  triple is kept (its two labels are different nodes), whether it joins a given pair of
  nodes in either direction, the number of nodes, and the edges at a node.
\<close>

definition triple_edge :: "Triple list \<Rightarrow> Triple \<Rightarrow> Edge" where
  "triple_edge triples t =
     \<lparr>efrom = index_of triples (node_name t),
      eto = index_of triples (name_of_component t),
      predicate = edge_name t\<rparr>"

definition links :: "Triple list \<Rightarrow> Triple \<Rightarrow> bool" where
  "links triples t = (index_of triples (node_name t) \<noteq> index_of triples (name_of_component t))"

definition joins :: "Triple list \<Rightarrow> Triple \<Rightarrow> nat \<Rightarrow> nat \<Rightarrow> bool" where
  "joins triples t i j =
     ((index_of triples (node_name t) = i \<and> index_of triples (name_of_component t) = j) \<or>
      (index_of triples (node_name t) = j \<and> index_of triples (name_of_component t) = i))"

definition node_count :: "Triple list \<Rightarrow> nat" where
  "node_count triples = length (snd (snd (collect_nodes triples)))"

definition incident :: "nat \<Rightarrow> Edge \<Rightarrow> bool" where
  "incident i e = (efrom e = i \<or> eto e = i)"

definition other_end :: "nat \<Rightarrow> Edge \<Rightarrow> nat" where
  "other_end i e = (if efrom e = i then eto e else efrom e)"

text \<open>The class invariant that \<open>LoadTriples\<close> establishes, for \<open>n\<close> nodes.\<close>

definition graph_ok :: "nat \<Rightarrow> GraphVisualizer \<Rightarrow> bool" where
  "graph_ok n g =
     (length (nodes g) = n \<and> length (velocities g) = n \<and>
      length (adjacency_matrix g) = n \<and> (\<forall>i<n. length (adjacency_matrix g ! i) = n) \<and>
      length (adjacency_list g) = n \<and>
      (\<forall>e\<in>set (edges g). efrom e \<noteq> eto e \<and> efrom e < n \<and> eto e < n) \<and>
      (\<forall>i<n. \<forall>j<n. adjacency_matrix g ! i ! j = adjacency_matrix g ! j ! i) \<and>
      (\<forall>i<n. sorted (adjacency_list g ! i) \<and> distinct (adjacency_list g ! i) \<and>
         set (adjacency_list g ! i) = other_end i ` {e \<in> set (edges g). incident i e}) \<and>
      (\<forall>i<n. connection_count (nodes g ! i) = int (length (filter (incident i) (edges g)))))"

definition map_ok :: "node_map \<times> nat \<times> Node list \<Rightarrow> bool" where
  "map_ok st = (case st of (m, nx, ns) \<Rightarrow> nx = length ns \<and> (\<forall>k i. m k = Some i \<longrightarrow> i < nx))"

text \<open>
  A default-constructed \<open>GraphVisualizer\<close>, and a small data set: two triples between
  \<open>A\<close> and \<open>B\<close> with different severities, one between \<open>B\<close> and \<open>C\<close>, and a
  self-referential triple that makes \<open>D\<close> a node without neighbours.
\<close>

definition fresh :: GraphVisualizer where
  "fresh =
     \<lparr>nodes = [], edges = [], adjacency_matrix = [], adjacency_list = [],
      page_rank_scores = [], selected_node = - 1, velocities = [], pan_offset = (0, 0),
      page_rank_average = 0, page_rank_std_dev = 0\<rparr>"

definition t_AB_high :: Triple where
  "t_AB_high = \<lparr>node_name = ''A'', edge_name = ''p'', name_of_component = ''B'', severity = ''high''\<rparr>"

definition t_AB_low :: Triple where
  "t_AB_low = \<lparr>node_name = ''A'', edge_name = ''q'', name_of_component = ''B'', severity = ''low''\<rparr>"

definition t_BC :: Triple where
  "t_BC = \<lparr>node_name = ''B'', edge_name = ''r'', name_of_component = ''C'', severity = ''medium''\<rparr>"

definition t_DD :: Triple where
  "t_DD = \<lparr>node_name = ''D'', edge_name = ''s'', name_of_component = ''D'', severity = ''high''\<rparr>"

definition ex_triples :: "Triple list" where
  "ex_triples = [t_AB_high, t_AB_low, t_BC, t_DD]"

definition ex_graph :: GraphVisualizer where
  "ex_graph = LoadTriples (\<lambda>k. 0) ex_triples fresh"

section \<open>\<open>predictLinksForNode\<close> and \<open>getConceptualMeaning\<close>\<close>

text \<open>
  The increment of lines 224 to 228: its argument is the index the source passes, the
  grand-neighbour's.
\<close>

definition score_increment :: "nat list list \<Rightarrow> nat \<Rightarrow> real" where
  "score_increment al k =
     (if length (al ! k) > 1 then 1 / ln (real (length (al ! k))) else 1)"

text \<open>The body of the inner loop (lines 223 to 229), for one grand-neighbour.\<close>

definition visit_grand_neighbor ::
  "nat list list \<Rightarrow> nat \<Rightarrow> nat list \<Rightarrow> nat \<Rightarrow> (nat \<times> real) list \<Rightarrow> (nat \<times> real) list" where
  "visit_grand_neighbor al node_index neighbors grand_neighbor_idx scores =
     (if grand_neighbor_idx \<noteq> node_index \<and> grand_neighbor_idx \<notin> set neighbors
      then map_upd grand_neighbor_idx (\<lambda>x. x + score_increment al grand_neighbor_idx) scores
      else scores)"

definition adamic_adar_scores :: "nat list list \<Rightarrow> nat \<Rightarrow> (nat \<times> real) list" where
  "adamic_adar_scores al node_index =
     (let neighbors = al ! node_index
      in fold (\<lambda>neighbor_idx. fold (visit_grand_neighbor al node_index neighbors) (al ! neighbor_idx))
           neighbors [])"

definition max_score :: "(nat \<times> real) list \<Rightarrow> real" where
  "max_score scores = fold (\<lambda>p mx. if snd p > mx then snd p else mx) scores 0"

text \<open>
  \<open>std::sort\<close> with the comparator \<open>a.second > b.second\<close>: descending by score. The
  standard leaves the order of equal scores open; the model keeps their relative order.
\<close>

definition sort_predictions :: "(nat \<times> real) list \<Rightarrow> (nat \<times> real) list" where
  "sort_predictions ps = sort_key (\<lambda>p. - snd p) ps"

definition predictLinksForNode :: "GraphVisualizer \<Rightarrow> int \<Rightarrow> (nat \<times> real) list" where
  "predictLinksForNode g node_index =
     (if node_index < 0 \<or> int (length (nodes g)) \<le> node_index then []
      else
        (let scores = adamic_adar_scores (adjacency_list g) (nat node_index);
             mx = max_score scores
         in sort_predictions
              (if mx > 0 then map (\<lambda>p. (fst p, snd p / mx)) scores else [])))"

definition getConceptualMeaning :: "real \<Rightarrow> string" where
  "getConceptualMeaning score =
     (if score \<ge> 0.8 then ''Strong''
      else if score \<ge> 0.5 then ''Moderate''
      else if score \<ge> 0.0 then ''Weak''
      else '''')"

text \<open>
  The scoring as the specification words it, for comparison: the same two loops, but the
  increment is taken at the common neighbour \<open>n\<close> (the Adamic-Adar index), not at the
  candidate \<open>m\<close>.
\<close>

definition spec_visit ::
  "nat list list \<Rightarrow> nat \<Rightarrow> nat list \<Rightarrow> nat \<Rightarrow> nat \<Rightarrow> (nat \<times> real) list \<Rightarrow> (nat \<times> real) list" where
  "spec_visit al q N1 n m scores =
     (if m \<noteq> q \<and> m \<notin> set N1
      then map_upd m (\<lambda>x. x + score_increment al n) scores
      else scores)"

definition spec_scores :: "nat list list \<Rightarrow> nat \<Rightarrow> (nat \<times> real) list" where
  "spec_scores al q =
     (let N1 = al ! q
      in fold (\<lambda>n. fold (spec_visit al q N1 n) (al ! n)) N1 [])"

text \<open>
  A fork: \<open>A\<close> is joined to \<open>B\<close> only; \<open>B\<close> also to \<open>C\<close> and \<open>D\<close>; \<open>C\<close> also to \<open>E\<close>.
  Seen from \<open>A\<close>, the candidates \<open>C\<close> and \<open>D\<close> share the one common neighbour \<open>B\<close>.
\<close>

definition fork_triples :: "Triple list" where
  "fork_triples =
     [\<lparr>node_name = ''A'', edge_name = ''e1'', name_of_component = ''B'', severity = ''high''\<rparr>,
      \<lparr>node_name = ''B'', edge_name = ''e2'', name_of_component = ''C'', severity = ''high''\<rparr>,
      \<lparr>node_name = ''B'', edge_name = ''e3'', name_of_component = ''D'', severity = ''high''\<rparr>,
      \<lparr>node_name = ''C'', edge_name = ''e4'', name_of_component = ''E'', severity = ''high''\<rparr>]"

definition fork_graph :: GraphVisualizer where
  "fork_graph = LoadTriples (\<lambda>k. 0) fork_triples fresh"

section \<open>\<open>UpdatePhysics\<close>\<close>

text \<open>
  \<open>vec_add\<close> and \<open>vec_sub\<close> are the pairs of statements \<open>v.x += w.x; v.y += w.y\<close> and
  \<open>v.x -= w.x; v.y -= w.y\<close>. The constants of the source are written into the formulas: \<open>time_step\<close> 0.5,
  \<open>repulsion_strength\<close> 2000, \<open>attraction_strength\<close> 0.02, \<open>damping\<close> 0.9, and the rest
  length 100.

  \<open>repulsion_vector\<close> is \<open>force_vector\<close> of the first loop (lines 271 to 277) for the
  positions of \<open>nodes[i]\<close> and \<open>nodes[j]\<close>.
\<close>

definition vec_add :: "ImVec2 \<Rightarrow> ImVec2 \<Rightarrow> ImVec2" where
  "vec_add v w = (fst v + fst w, snd v + snd w)"

definition vec_sub :: "ImVec2 \<Rightarrow> ImVec2 \<Rightarrow> ImVec2" where
  "vec_sub v w = (fst v - fst w, snd v - snd w)"

definition repulsion_vector :: "ImVec2 \<Rightarrow> ImVec2 \<Rightarrow> ImVec2" where
  "repulsion_vector p_i p_j =
     (let delta = (fst p_i - fst p_j, snd p_i - snd p_j);
          d2 = fst delta * fst delta + snd delta * snd delta;
          dist_sq = (if d2 < 1 then 1 else d2);
          force = 2000 / dist_sq;
          dist = sqrt dist_sq
      in (fst delta / dist * force, snd delta / dist * force))"

text \<open>The body of the loop over \<open>j\<close>, and the body of the loop over \<open>i\<close>.\<close>

definition repel_pair :: "Node list \<Rightarrow> nat \<Rightarrow> nat \<Rightarrow> ImVec2 list \<Rightarrow> ImVec2 list" where
  "repel_pair ns i j vs =
     (if dragging (ns ! j) then vs
      else
        (let fv = repulsion_vector (position (ns ! i)) (position (ns ! j));
             vs1 = vs[i := vec_add (vs ! i) fv]
         in vs1[j := vec_sub (vs1 ! j) fv]))"

definition repel_row :: "Node list \<Rightarrow> nat \<Rightarrow> ImVec2 list \<Rightarrow> ImVec2 list" where
  "repel_row ns i vs =
     (if dragging (ns ! i) then vs
      else fold (repel_pair ns i) [i + 1..<length ns] vs)"

definition repulsion :: "Node list \<Rightarrow> ImVec2 list \<Rightarrow> ImVec2 list" where
  "repulsion ns vs = fold (repel_row ns) [0..<length ns] vs"

text \<open>
  \<open>spring_vector\<close> is \<open>force_vector\<close> of the loop over the edges (lines 287 to 292),
  for the positions of \<open>nodes[edge.from]\<close> and \<open>nodes[edge.to]\<close>.
\<close>

definition spring_vector :: "ImVec2 \<Rightarrow> ImVec2 \<Rightarrow> ImVec2" where
  "spring_vector p_from p_to =
     (let delta = (fst p_to - fst p_from, snd p_to - snd p_from);
          d0 = sqrt (fst delta * fst delta + snd delta * snd delta);
          dist = (if d0 < 1 then 1 else d0);
          force = (dist - 100) * 0.02
      in (fst delta / dist * force, snd delta / dist * force))"

definition attract_edge :: "Node list \<Rightarrow> Edge \<Rightarrow> ImVec2 list \<Rightarrow> ImVec2 list" where
  "attract_edge ns e vs =
     (let fv = spring_vector (position (ns ! efrom e)) (position (ns ! eto e));
          vs1 = (if \<not> dragging (ns ! efrom e)
                 then vs[efrom e := vec_add (vs ! efrom e) fv]
                 else vs)
      in if \<not> dragging (ns ! eto e)
         then vs1[eto e := vec_sub (vs1 ! eto e) fv]
         else vs1)"

definition attraction :: "Node list \<Rightarrow> Edge list \<Rightarrow> ImVec2 list \<Rightarrow> ImVec2 list" where
  "attraction ns es vs = fold (attract_edge ns) es vs"

text \<open>
  The last loop touches only \<open>nodes[i]\<close> and \<open>velocities[i]\<close> in its \<open>i\<close>-th round, so
  it is a map over the indices. \<open>velocities\<close> has one entry per node (the invariant of
  \<open>LoadTriples\<close>); the source reads and writes it at every node index.
\<close>

definition integrate_node :: "Node \<Rightarrow> ImVec2 \<Rightarrow> Node \<times> ImVec2" where
  "integrate_node nd v =
     (if \<not> dragging nd
      then (nd\<lparr>position := (fst (position nd) + fst v * 0.5, snd (position nd) + snd v * 0.5)\<rparr>,
            (fst v * 0.9, snd v * 0.9))
      else (nd, v))"

definition UpdatePhysics :: "GraphVisualizer \<Rightarrow> GraphVisualizer" where
  "UpdatePhysics g =
     (let ns = nodes g;
          vs = attraction ns (edges g) (repulsion ns (velocities g));
          moved = map (\<lambda>i. integrate_node (ns ! i) (vs ! i)) [0..<length ns]
      in g\<lparr>nodes := map fst moved, velocities := map snd moved\<rparr>)"

text \<open>The distance between two nodes, and a node at a given place.\<close>

definition node_distance :: "Node \<Rightarrow> Node \<Rightarrow> real" where
  "node_distance a b =
     sqrt ((fst (position b) - fst (position a)) ^ 2 + (snd (position b) - snd (position a)) ^ 2)"

definition node_at :: "string \<Rightarrow> ImVec2 \<Rightarrow> bool \<Rightarrow> Node" where
  "node_at name p pinned = default_Node\<lparr>label := name, position := p, dragging := pinned, radius := 25\<rparr>"

text \<open>
  Two nodes and no edge (the data set of two self-referential triples), ten units apart,
  at rest: once with the first node pinned, once with both free.
\<close>

definition lone_pair :: "bool \<Rightarrow> GraphVisualizer" where
  "lone_pair pinned =
     fresh\<lparr>nodes := [node_at ''A'' (100, 100) pinned, node_at ''B'' (110, 100) False],
           velocities := [(0, 0), (0, 0)],
           adjacency_matrix := [[0, 0], [0, 0]],
           adjacency_list := [[], []]\<rparr>"

text \<open>
  Two nodes joined by one edge, at rest, the second \<open>d\<close> units to the right of the
  first; the first node may be pinned.
\<close>

definition linked_pair :: "real \<Rightarrow> bool \<Rightarrow> GraphVisualizer" where
  "linked_pair d pinned =
     fresh\<lparr>nodes := [(node_at ''A'' (100, 100) pinned)\<lparr>connection_count := 1\<rparr>,
                     (node_at ''B'' (100 + d, 100) False)\<lparr>connection_count := 1\<rparr>],
           edges := [\<lparr>efrom = 0, eto = 1, predicate = ''p''\<rparr>],
           velocities := [(0, 0), (0, 0)],
           adjacency_matrix := [[0, 0.8], [0.8, 0]],
           adjacency_list := [[1], [0]]\<rparr>"

text \<open>
  Vocabulary for the whole step. \<open>net_repulsion ns k\<close> adds up the repulsion on node
  \<open>k\<close> from every other node that is not pinned; \<open>net_spring ns es k\<close> adds up the spring
  force of every edge that leaves \<open>k\<close> and takes off that of every edge that arrives at
  \<open>k\<close>, whatever the state of the other end.
\<close>

definition vec_scale :: "real \<Rightarrow> ImVec2 \<Rightarrow> ImVec2" where
  "vec_scale c v = (c * fst v, c * snd v)"

definition vec_sum :: "ImVec2 list \<Rightarrow> ImVec2" where
  "vec_sum vs = (sum_list (map fst vs), sum_list (map snd vs))"

definition net_repulsion :: "Node list \<Rightarrow> nat \<Rightarrow> ImVec2" where
  "net_repulsion ns k =
     vec_sum (map (\<lambda>i. repulsion_vector (position (ns ! k)) (position (ns ! i)))
                (filter (\<lambda>i. i \<noteq> k \<and> \<not> dragging (ns ! i)) [0..<length ns]))"

definition edge_spring :: "Node list \<Rightarrow> Edge \<Rightarrow> ImVec2" where
  "edge_spring ns e = spring_vector (position (ns ! efrom e)) (position (ns ! eto e))"

definition net_spring :: "Node list \<Rightarrow> Edge list \<Rightarrow> nat \<Rightarrow> ImVec2" where
  "net_spring ns es k =
     vec_sub (vec_sum (map (edge_spring ns) (filter (\<lambda>e. efrom e = k) es)))
             (vec_sum (map (edge_spring ns) (filter (\<lambda>e. eto e = k) es)))"

section \<open>\<open>calculatePageRank\<close> and \<open>getPageRankMeaning\<close>\<close>

text \<open>
  \<open>out_degree[i]\<close> is written once, with \<open>adjacency_list[i].size()\<close>, and read at the
  same indices. \<open>init_ranks\<close> is the first loop (lines 160 to 163) on the empty map
  \<open>current_ranks\<close>.
\<close>

definition out_degree :: "nat list list \<Rightarrow> nat \<Rightarrow> nat" where
  "out_degree al i = length (al ! i)"

definition init_ranks :: "nat \<Rightarrow> (nat \<times> real) list" where
  "init_ranks n = fold (\<lambda>i m. map_upd i (\<lambda>x. 1 / real n) m) [0..<n] []"

text \<open>
  One round of the loop over \<open>iter\<close>, on the pair of maps \<open>current_ranks\<close> and
  \<open>new_ranks\<close> (which is declared outside the loop and keeps its keys from round to
  round): the reset to \<open>1 - damping_factor\<close>, the loop over the nodes and their
  neighbours, and the assignment \<open>current_ranks = new_ranks\<close>.
\<close>

definition reset_ranks :: "nat \<Rightarrow> (nat \<times> real) list \<Rightarrow> (nat \<times> real) list" where
  "reset_ranks n new_ranks = fold (\<lambda>i m. map_upd i (\<lambda>x. 1 - 0.85) m) [0..<n] new_ranks"

definition give :: "nat list list \<Rightarrow> (nat \<times> real) list \<Rightarrow> nat \<Rightarrow> nat \<Rightarrow> (nat \<times> real) list \<Rightarrow> (nat \<times> real) list" where
  "give al current_ranks i neighbor_idx new_ranks =
     (if out_degree al i > 0
      then map_upd neighbor_idx
             (\<lambda>x. x + 0.85 * (map_get current_ranks i / real (out_degree al i))) new_ranks
      else new_ranks)"

definition spread :: "nat list list \<Rightarrow> nat \<Rightarrow> (nat \<times> real) list \<Rightarrow> (nat \<times> real) list \<Rightarrow> (nat \<times> real) list" where
  "spread al n current_ranks new_ranks =
     fold (\<lambda>i m. fold (give al current_ranks i) (al ! i) m) [0..<n] new_ranks"

definition rank_round ::
  "nat list list \<Rightarrow> nat \<Rightarrow> (nat \<times> real) list \<times> (nat \<times> real) list \<Rightarrow>
   (nat \<times> real) list \<times> (nat \<times> real) list" where
  "rank_round al n st =
     (case st of (current_ranks, new_ranks) \<Rightarrow>
        (let new_ranks' = spread al n current_ranks (reset_ranks n new_ranks)
         in (new_ranks', new_ranks')))"

definition final_ranks :: "nat list list \<Rightarrow> nat \<Rightarrow> (nat \<times> real) list" where
  "final_ranks al n = fst ((rank_round al n ^^ 20) (init_ranks n, []))"

definition rank_sum :: "(nat \<times> real) list \<Rightarrow> real" where
  "rank_sum ranks = fold (\<lambda>p s. s + snd p) ranks 0"

definition variance_sum :: "real \<Rightarrow> (nat \<times> real) list \<Rightarrow> real" where
  "variance_sum average ranks = fold (\<lambda>p s. s + (snd p - average) ^ 2) ranks 0"

definition calculatePageRank :: "GraphVisualizer \<Rightarrow> GraphVisualizer" where
  "calculatePageRank g =
     (let n = length (nodes g)
      in if n = 0 then g
         else
           (let current_ranks = final_ranks (adjacency_list g) n;
                average = rank_sum current_ranks / real n;
                std_dev = sqrt (variance_sum average current_ranks / real n)
            in g\<lparr>page_rank_average := average,
                 page_rank_std_dev := std_dev,
                 page_rank_scores := current_ranks\<rparr>))"


text \<open>
  The computation as the specification words it: every node starts at \<open>1 / N\<close>; in each
  round a node's new rank starts at \<open>1 - 0.85\<close> and receives
  \<open>0.85 * rank(i) / |adjacency-set(i)|\<close> from every node \<open>i\<close> it is a neighbour of;
  the mean and the population standard deviation are taken over the \<open>N\<close> final ranks.
\<close>

fun spec_rank :: "nat list list \<Rightarrow> nat \<Rightarrow> nat \<Rightarrow> nat \<Rightarrow> real" where
  "spec_rank al n 0 j = 1 / real n"
| "spec_rank al n (Suc k) j =
     (1 - 0.85) +
     (\<Sum>i\<leftarrow>[0..<n]. if j \<in> set (al ! i) \<and> length (al ! i) \<noteq> 0
                    then 0.85 * spec_rank al n k i / real (length (al ! i)) else 0)"

definition mean :: "real list \<Rightarrow> real" where
  "mean xs = sum_list xs / real (length xs)"

definition population_std_dev :: "real list \<Rightarrow> real" where
  "population_std_dev xs = sqrt ((\<Sum>x\<leftarrow>xs. (x - mean xs) ^ 2) / real (length xs))"

section \<open>\<open>calculatePageRank\<close> with rounding\<close>











text \<open>
  Rounding to nearest, ties to even, to a binary format with \<open>p\<close> significant bits
  (IEEE 754: \<open>float\<close> has 24 and \<open>double\<close> 53). The exponent range is not bounded: the
  numbers of this computation are far from overflow and from the subnormal range.
  \<open>normalise\<close> scales the magnitude, by at most 2000 powers of two, into the interval
  from \<open>2 ^ (p - 1)\<close> up to \<open>2 ^ p\<close>, where the representable numbers are the integers,
  and returns it with the scale to undo.
\<close>

fun normalise :: "nat \<Rightarrow> real \<Rightarrow> real \<Rightarrow> real \<Rightarrow> real \<times> real" where
  "normalise 0 B a sc = (a, sc)"
| "normalise (Suc f) B a sc =
     (if 2 * B \<le> a then normalise f B (a / 2) (sc * 2)
      else if a < B then normalise f B (a * 2) (sc / 2)
      else (a, sc))"

definition round_half_even :: "real \<Rightarrow> real" where
  "round_half_even m =
     (let f = \<lfloor>m\<rfloor>; r = m - of_int f
      in if r < 1 / 2 then of_int f
         else if 1 / 2 < r then of_int (f + 1)
         else if even f then of_int f else of_int (f + 1))"

definition round_to :: "nat \<Rightarrow> real \<Rightarrow> real" where
  "round_to p x =
     (if x = 0 then 0
      else (case normalise 2000 (2 ^ (p - 1)) (\<bar>x\<bar> * 2 ^ (p - 1)) (1 / 2 ^ (p - 1)) of
              (m, sc) \<Rightarrow> sgn x * round_half_even m * sc))"

definition binary32 :: "real \<Rightarrow> real" where
  "binary32 = round_to 24"

definition binary64 :: "real \<Rightarrow> real" where
  "binary64 = round_to 53"







section \<open>Properties of \<open>LoadTriples\<close>\<close>

subsection \<open>The node map\<close>

lemma set_insert_set: "set (set_insert x xs) = insert x (set xs)"
  by (induction xs) auto

lemma set_insert_sorted: "sorted xs \<Longrightarrow> distinct xs \<Longrightarrow> sorted (set_insert x xs) \<and> distinct (set_insert x xs)"
  by (induction xs) (auto simp: set_insert_set)

lemma add_node_ok: "map_ok st \<Longrightarrow> map_ok (add_node name st)"
  by (cases st) (auto simp: map_ok_def add_node_def less_Suc_eq)

lemma add_node_defined: "fst (add_node name st) name \<noteq> None"
  by (cases st) (auto simp: add_node_def)

lemma add_node_keeps: "fst st k = Some i \<Longrightarrow> fst (add_node name st) k = Some i"
  by (cases st) (auto simp: add_node_def)

lemma scan_triple_ok: "map_ok st \<Longrightarrow> map_ok (scan_triple t st)"
  by (simp add: scan_triple_def add_node_ok)

lemma scan_triple_keeps: "fst st k = Some i \<Longrightarrow> fst (scan_triple t st) k = Some i"
  by (simp add: scan_triple_def add_node_keeps)

lemma scan_triple_defined:
  "fst (scan_triple t st) (node_name t) \<noteq> None \<and> fst (scan_triple t st) (name_of_component t) \<noteq> None"
proof -
  obtain i where "fst (add_node (node_name t) st) (node_name t) = Some i"
    using add_node_defined[of "node_name t" st] by auto
  then have "fst (scan_triple t st) (node_name t) = Some i"
    unfolding scan_triple_def by (rule add_node_keeps)
  then show ?thesis by (simp add: scan_triple_def add_node_defined)
qed

lemma fold_scan_ok: "map_ok st \<Longrightarrow> map_ok (fold scan_triple ts st)"
  by (induction ts arbitrary: st) (auto simp: scan_triple_ok)

lemma fold_scan_keeps: "fst st k = Some i \<Longrightarrow> fst (fold scan_triple ts st) k = Some i"
  by (induction ts arbitrary: st) (auto simp: scan_triple_keeps)

lemma fold_scan_defined:
  "t \<in> set ts \<Longrightarrow>
   fst (fold scan_triple ts st) (node_name t) \<noteq> None \<and>
   fst (fold scan_triple ts st) (name_of_component t) \<noteq> None"
proof (induction ts arbitrary: st)
  case Nil
  then show ?case by simp
next
  case (Cons a ts)
  show ?case
  proof (cases "t = a")
    case True
    obtain i j where "fst (scan_triple a st) (node_name a) = Some i"
      "fst (scan_triple a st) (name_of_component a) = Some j"
      using scan_triple_defined[of a st] by auto
    then show ?thesis using True by (simp add: fold_scan_keeps)
  next
    case False
    then show ?thesis using Cons by auto
  qed
qed

lemma collect_nodes_ok: "map_ok (collect_nodes ts)"
  unfolding collect_nodes_def by (rule fold_scan_ok) (simp add: map_ok_def)

lemma index_of_less:
  assumes "t \<in> set ts"
  shows "index_of ts (node_name t) < length (snd (snd (collect_nodes ts)))"
    and "index_of ts (name_of_component t) < length (snd (snd (collect_nodes ts)))"
proof -
  obtain m nx ns where c: "collect_nodes ts = (m, nx, ns)" by (cases "collect_nodes ts")
  have ok: "nx = length ns" "\<And>k i. m k = Some i \<Longrightarrow> i < nx"
    using collect_nodes_ok[of ts] by (auto simp: c map_ok_def)
  have "m (node_name t) \<noteq> None" "m (name_of_component t) \<noteq> None"
    using fold_scan_defined[OF assms, of "(Map.empty, 0, [])"] c by (auto simp: collect_nodes_def)
  then show "index_of ts (node_name t) < length (snd (snd (collect_nodes ts)))"
    and "index_of ts (name_of_component t) < length (snd (snd (collect_nodes ts)))"
    using ok by (auto simp: index_of_def lookup_def c)
qed

subsection \<open>One triple preserves the invariant\<close>

lemma mat_set_length: "length (mat_set M a b w) = length M"
  by (simp add: mat_set_def)

lemma mat_set_row_length: "i < length M \<Longrightarrow> length (mat_set M a b w ! i) = length (M ! i)"
  by (cases "i = a") (simp_all add: mat_set_def)

lemma mat_set_hit:
  "a < length M \<Longrightarrow> b < length (M ! a) \<Longrightarrow> mat_set M a b w ! a ! b = w"
  by (simp add: mat_set_def)

lemma mat_set_miss:
  "i < length M \<Longrightarrow> \<not> (i = a \<and> j = b) \<Longrightarrow> mat_set M a b w ! i ! j = M ! i ! j"
  by (cases "i = a") (simp_all add: mat_set_def)

lemma mat_set2_hit:
  assumes "length M = n" "\<forall>i<n. length (M ! i) = n" "a < n" "b < n"
  shows "mat_set (mat_set M a b w) b a w ! a ! b = w"
    and "mat_set (mat_set M a b w) b a w ! b ! a = w"
proof -
  have l: "length (mat_set M a b w) = n" "length (mat_set M a b w ! b) = n" "length (M ! a) = n"
    using assms by (simp_all add: mat_set_length mat_set_row_length)
  show "mat_set (mat_set M a b w) b a w ! b ! a = w"
    using l assms by (simp add: mat_set_hit)
  show "mat_set (mat_set M a b w) b a w ! a ! b = w"
  proof (cases "a = b")
    case True
    then show ?thesis using l assms by (simp add: mat_set_hit)
  next
    case False
    then have "mat_set (mat_set M a b w) b a w ! a ! b = mat_set M a b w ! a ! b"
      using l assms by (simp add: mat_set_miss)
    then show ?thesis using l assms by (simp add: mat_set_hit)
  qed
qed

lemma mat_set2_miss:
  assumes "length M = n" "i < n" "\<not> (i = a \<and> j = b)" "\<not> (i = b \<and> j = a)"
  shows "mat_set (mat_set M a b w) b a w ! i ! j = M ! i ! j"
proof -
  have "mat_set (mat_set M a b w) b a w ! i ! j = mat_set M a b w ! i ! j"
    using assms(1,2,4) by (intro mat_set_miss) (simp_all add: mat_set_length)
  also have "\<dots> = M ! i ! j"
    using assms(1,2,3) by (intro mat_set_miss) simp_all
  finally show ?thesis .
qed

lemma mat_set2_sym:
  assumes "length M = n" "\<forall>i<n. length (M ! i) = n" "a < n" "b < n"
    and sym: "\<forall>i<n. \<forall>j<n. M ! i ! j = M ! j ! i" and ij: "i < n" "j < n"
  shows "mat_set (mat_set M a b w) b a w ! i ! j = mat_set (mat_set M a b w) b a w ! j ! i"
proof -
  consider "i = a \<and> j = b" | "i = b \<and> j = a" | "\<not> (i = a \<and> j = b) \<and> \<not> (i = b \<and> j = a)"
    by blast
  then show ?thesis
  proof cases
    case 1
    then show ?thesis using mat_set2_hit[OF assms(1-4), of w] by metis
  next
    case 2
    then show ?thesis using mat_set2_hit[OF assms(1-4), of w] by metis
  next
    case 3
    then have "mat_set (mat_set M a b w) b a w ! i ! j = M ! i ! j"
      "mat_set (mat_set M a b w) b a w ! j ! i = M ! j ! i"
      using assms(1) ij by (blast intro: mat_set2_miss)+
    then show ?thesis using sym ij by metis
  qed
qed

lemma set_add_length: "length (set_add al i j) = length al"
  by (simp add: set_add_def)

lemma set_add_nth:
  "k < length al \<Longrightarrow> set_add al i j ! k = (if k = i then set_insert j (al ! i) else al ! k)"
  by (simp add: set_add_def nth_list_update)

lemma set_add2_set:
  assumes "i < length al"
  shows "set (set_add (set_add al a b) b a ! i) =
           set (al ! i) \<union> (if i = a then {b} else {}) \<union> (if i = b then {a} else {})"
  using assms by (auto simp: set_add_nth set_add_length set_insert_set)

lemma set_add2_sorted:
  assumes "i < length al" "sorted (al ! i)" "distinct (al ! i)"
  shows "sorted (set_add (set_add al a b) b a ! i) \<and> distinct (set_add (set_add al a b) b a ! i)"
  using assms set_insert_sorted[of "al ! i"] set_insert_sorted[of "set_insert b (al ! i)"]
  by (auto simp: set_add_nth set_add_length)

lemma bump_length: "length (bump i ns) = length ns"
  by (simp add: bump_def)

lemma bump_count:
  "k < length ns \<Longrightarrow>
   connection_count (bump i ns ! k) = connection_count (ns ! k) + (if k = i then 1 else 0)"
  by (simp add: bump_def nth_list_update)

lemma link_triple_ok:
  assumes ok: "graph_ok n g"
    and f: "lookup m (node_name t) < n" and k: "lookup m (name_of_component t) < n"
  shows "graph_ok n (link_triple m t g)"
proof (cases "lookup m (node_name t) = lookup m (name_of_component t)")
  case True
  then show ?thesis using ok by (simp add: link_triple_def)
next
  case False
  define a where "a = lookup m (node_name t)"
  define b where "b = lookup m (name_of_component t)"
  define e where "e = \<lparr>efrom = a, eto = b, predicate = edge_name t\<rparr>"
  define g' where "g' = link_triple m t g"
  have ab: "a \<noteq> b" "a < n" "b < n" using False f k by (simp_all add: a_def b_def)
  have E: "edges g' = edges g @ [e]"
    and M: "adjacency_matrix g' = mat_set (mat_set (adjacency_matrix g) a b (severityToWeight (severity t))) b a (severityToWeight (severity t))"
    and A: "adjacency_list g' = set_add (set_add (adjacency_list g) a b) b a"
    and N: "nodes g' = bump b (bump a (nodes g))"
    and V: "velocities g' = velocities g"
    using False by (simp_all add: g'_def link_triple_def Let_def a_def b_def e_def)
  have len: "length (nodes g) = n" "length (velocities g) = n" "length (adjacency_matrix g) = n"
    "\<forall>i<n. length (adjacency_matrix g ! i) = n" "length (adjacency_list g) = n"
    using ok by (simp_all add: graph_ok_def)
  have ed: "\<forall>e\<in>set (edges g). efrom e \<noteq> eto e \<and> efrom e < n \<and> eto e < n"
    and sym: "\<forall>i<n. \<forall>j<n. adjacency_matrix g ! i ! j = adjacency_matrix g ! j ! i"
    and adj: "\<forall>i<n. sorted (adjacency_list g ! i) \<and> distinct (adjacency_list g ! i) \<and>
         set (adjacency_list g ! i) = other_end i ` {e \<in> set (edges g). incident i e}"
    and cnt: "\<forall>i<n. connection_count (nodes g ! i) = int (length (filter (incident i) (edges g)))"
    using ok by (simp_all add: graph_ok_def)
  have 1: "length (nodes g') = n" "length (velocities g') = n" "length (adjacency_matrix g') = n"
    "length (adjacency_list g') = n"
    using len by (simp_all add: N V M A bump_length mat_set_length set_add_length)
  have 2: "\<forall>i<n. length (adjacency_matrix g' ! i) = n"
    using len by (simp add: M mat_set_row_length mat_set_length)
  have 3: "\<forall>e\<in>set (edges g'). efrom e \<noteq> eto e \<and> efrom e < n \<and> eto e < n"
    using ed ab by (auto simp: E e_def)
  have 4: "\<forall>i<n. \<forall>j<n. adjacency_matrix g' ! i ! j = adjacency_matrix g' ! j ! i"
    unfolding M using mat_set2_sym[OF len(3) len(4) ab(2) ab(3) sym] by blast
  have 5: "\<forall>i<n. sorted (adjacency_list g' ! i) \<and> distinct (adjacency_list g' ! i)"
    using adj len by (simp add: A set_add2_sorted)
  have 6: "\<forall>i<n. set (adjacency_list g' ! i) = other_end i ` {e \<in> set (edges g'). incident i e}"
  proof (intro allI impI)
    fix i assume i: "i < n"
    have "{x \<in> set (edges g'). incident i x} = {x \<in> set (edges g). incident i x} \<union> (if incident i e then {e} else {})"
      by (auto simp: E)
    moreover have "incident i e \<longleftrightarrow> i = a \<or> i = b" by (auto simp: incident_def e_def)
    moreover have "other_end a e = b" "other_end b e = a" using ab by (simp_all add: other_end_def e_def)
    ultimately show "set (adjacency_list g' ! i) = other_end i ` {e \<in> set (edges g'). incident i e}"
      using adj i len by (auto simp: A set_add2_set)
  qed
  have 7: "\<forall>i<n. connection_count (nodes g' ! i) = int (length (filter (incident i) (edges g')))"
  proof (intro allI impI)
    fix i assume i: "i < n"
    have "incident i e \<longleftrightarrow> i = a \<or> i = b" by (auto simp: incident_def e_def)
    then show "connection_count (nodes g' ! i) = int (length (filter (incident i) (edges g')))"
      using cnt i len ab by (auto simp: N E bump_count bump_length)
  qed
  show ?thesis
    using 1 2 3 4 5 6 7 unfolding graph_ok_def g'_def[symmetric] by simp
qed

subsection \<open>The whole load\<close>

lemma fold_inv:
  "P s \<Longrightarrow> (\<And>x s. x \<in> set xs \<Longrightarrow> P s \<Longrightarrow> P (f x s)) \<Longrightarrow> P (fold f xs s)"
  by (induction xs arbitrary: s) auto

lemma place_nodes_length: "length (place_nodes rnd ns) = length ns"
  by (simp add: place_nodes_def)

lemma place_nodes_count: "i < length ns \<Longrightarrow> connection_count (place_nodes rnd ns ! i) = 0"
  by (simp add: place_nodes_def)

lemma init_graph_ok: "graph_ok (node_count ts) (init_graph rnd ts g)"
proof -
  obtain m nx ns where c: "collect_nodes ts = (m, nx, ns)" by (cases "collect_nodes ts")
  show ?thesis
    by (simp add: graph_ok_def init_graph_def node_count_def c Let_def place_nodes_length
        place_nodes_count)
qed

lemma link_step_ok:
  assumes "t \<in> set ts" "graph_ok (node_count ts) g"
  shows "graph_ok (node_count ts) (link_triple (fst (collect_nodes ts)) t g)"
  using assms index_of_less[OF assms(1)]
  by (intro link_triple_ok) (simp_all add: index_of_def node_count_def)

lemma link_all_ok: "graph_ok (node_count ts) (link_all rnd ts g)"
  unfolding link_all_def
  by (rule fold_inv[where P = "graph_ok (node_count ts)"]) (simp_all add: init_graph_ok link_step_ok)

lemma set_radius_count: "connection_count (set_radius mx nd) = connection_count nd"
  by (simp add: set_radius_def)

lemma LoadTriples_ok: "graph_ok (node_count ts) (LoadTriples rnd ts g)"
  using link_all_ok[of ts rnd g]
  by (simp add: LoadTriples_def Let_def graph_ok_def set_radius_count)

lemma LoadTriples_fields:
  "edges (LoadTriples rnd ts g) = edges (link_all rnd ts g)"
  "adjacency_matrix (LoadTriples rnd ts g) = adjacency_matrix (link_all rnd ts g)"
  "adjacency_list (LoadTriples rnd ts g) = adjacency_list (link_all rnd ts g)"
  "velocities (LoadTriples rnd ts g) = velocities (link_all rnd ts g)"
  by (simp_all add: LoadTriples_def Let_def)

lemma link_triple_edges:
  "edges (link_triple (fst (collect_nodes ts)) t g) =
     edges g @ (if links ts t then [triple_edge ts t] else [])"
  by (simp add: link_triple_def Let_def links_def triple_edge_def index_of_def)

lemma fold_link_edges:
  "edges (fold (link_triple (fst (collect_nodes ts))) us g) =
     edges g @ map (triple_edge ts) (filter (links ts) us)"
  by (induction us arbitrary: g) (simp_all add: link_triple_edges)

lemma LoadTriples_edges:
  "edges (LoadTriples rnd ts g) = map (triple_edge ts) (filter (links ts) ts)"
proof -
  obtain m nx ns where c: "collect_nodes ts = (m, nx, ns)" by (cases "collect_nodes ts")
  have "edges (init_graph rnd ts g) = []" by (simp add: init_graph_def c Let_def)
  then show ?thesis by (simp add: LoadTriples_fields link_all_def fold_link_edges)
qed

lemma adj_mem_iff:
  assumes "graph_ok n g" "i < n"
  shows "j \<in> set (adjacency_list g ! i) \<longleftrightarrow>
         (\<exists>e\<in>set (edges g). (efrom e = i \<and> eto e = j) \<or> (efrom e = j \<and> eto e = i))"
proof -
  have s: "set (adjacency_list g ! i) = other_end i ` {e \<in> set (edges g). incident i e}"
    and ne: "\<forall>e\<in>set (edges g). efrom e \<noteq> eto e"
    using assms by (simp_all add: graph_ok_def)
  show ?thesis
  proof
    assume "j \<in> set (adjacency_list g ! i)"
    then obtain e where "e \<in> set (edges g)" "incident i e" "j = other_end i e"
      using s by auto
    then show "\<exists>e\<in>set (edges g). (efrom e = i \<and> eto e = j) \<or> (efrom e = j \<and> eto e = i)"
      by (auto simp: incident_def other_end_def split: if_splits)
  next
    assume "\<exists>e\<in>set (edges g). (efrom e = i \<and> eto e = j) \<or> (efrom e = j \<and> eto e = i)"
    then obtain e where e: "e \<in> set (edges g)" "(efrom e = i \<and> eto e = j) \<or> (efrom e = j \<and> eto e = i)"
      by blast
    then have "incident i e" "other_end i e = j" using ne
      by (auto simp: incident_def other_end_def)
    then show "j \<in> set (adjacency_list g ! i)" using s e(1) by force
  qed
qed

lemma count_vs_neighbours:
  assumes "graph_ok n g" "i < n"
  shows "connection_count (nodes g ! i) = int (length (filter (incident i) (edges g)))"
    and "int (length (adjacency_list g ! i)) \<le> connection_count (nodes g ! i)"
    and "connection_count (nodes g ! i) = int (length (adjacency_list g ! i)) \<longleftrightarrow>
         distinct (map (other_end i) (filter (incident i) (edges g)))"
proof -
  let ?inc = "filter (incident i) (edges g)"
  have c: "connection_count (nodes g ! i) = int (length ?inc)"
    and d: "distinct (adjacency_list g ! i)"
    and s: "set (adjacency_list g ! i) = other_end i ` {e \<in> set (edges g). incident i e}"
    using assms by (simp_all add: graph_ok_def)
  have "set (adjacency_list g ! i) = set (map (other_end i) ?inc)" using s by auto
  then have l: "length (adjacency_list g ! i) = card (set (map (other_end i) ?inc))"
    using d distinct_card by metis
  show "connection_count (nodes g ! i) = int (length ?inc)" by (rule c)
  show "int (length (adjacency_list g ! i)) \<le> connection_count (nodes g ! i)"
    using card_length[of "map (other_end i) ?inc"] by (simp add: c l)
  show "connection_count (nodes g ! i) = int (length (adjacency_list g ! i)) \<longleftrightarrow>
         distinct (map (other_end i) ?inc)"
    using card_distinct[of "map (other_end i) ?inc"] distinct_card[of "map (other_end i) ?inc"]
    by (auto simp: c l)
qed

lemma link_triple_matrix:
  "adjacency_matrix (link_triple (fst (collect_nodes ts)) u g) =
     (if links ts u
      then mat_set (mat_set (adjacency_matrix g) (index_of ts (node_name u))
             (index_of ts (name_of_component u)) (severityToWeight (severity u)))
             (index_of ts (name_of_component u)) (index_of ts (node_name u))
             (severityToWeight (severity u))
      else adjacency_matrix g)"
  by (simp add: link_triple_def Let_def links_def index_of_def)

lemma last_write_wins:
  assumes split: "ts = ts1 @ t # ts2" and l: "links ts t"
    and i: "i = index_of ts (node_name t)" and j: "j = index_of ts (name_of_component t)"
    and later: "\<forall>u\<in>set ts2. \<not> joins ts u i j"
  shows "adjacency_matrix (link_all rnd ts g) ! i ! j = severityToWeight (severity t)"
    and "adjacency_matrix (link_all rnd ts g) ! j ! i = severityToWeight (severity t)"
proof -
  define m where "m = fst (collect_nodes ts)"
  define n where "n = node_count ts"
  define w where "w = severityToWeight (severity t)"
  define g1 where "g1 = fold (link_triple m) ts1 (init_graph rnd ts g)"
  define g2 where "g2 = link_triple m t g1"
  define P where "P = (\<lambda>h. graph_ok n h \<and> adjacency_matrix h ! i ! j = w \<and> adjacency_matrix h ! j ! i = w)"
  have tin: "t \<in> set ts" using split by simp
  have ij: "i < n" "j < n" using index_of_less[OF tin] by (simp_all add: i j n_def node_count_def)
  have ok1: "graph_ok n g1"
    unfolding g1_def n_def m_def
    by (rule fold_inv[where P = "graph_ok (node_count ts)"])
       (simp_all add: init_graph_ok link_step_ok split)
  have ok2: "graph_ok n g2"
    unfolding g2_def n_def m_def using ok1 tin by (simp add: link_step_ok n_def)
  have dims: "length (adjacency_matrix g1) = n" "\<forall>k<n. length (adjacency_matrix g1 ! k) = n"
    using ok1 by (simp_all add: graph_ok_def)
  have M2: "adjacency_matrix g2 = mat_set (mat_set (adjacency_matrix g1) i j w) j i w"
    using l by (simp add: g2_def m_def link_triple_matrix i j w_def)
  have P2: "P g2"
    unfolding P_def M2 using ok2 mat_set2_hit[OF dims ij, of w] by simp
  have step: "P (link_triple m u h)" if u: "u \<in> set ts2" and h: "P h" for u h
  proof -
    have uin: "u \<in> set ts" using u split by simp
    have okh: "graph_ok n h" using h by (simp add: P_def)
    have ok': "graph_ok n (link_triple m u h)"
      unfolding m_def n_def using okh uin by (simp add: link_step_ok n_def)
    have nj: "\<not> joins ts u i j" using later u by blast
    have lenh: "length (adjacency_matrix h) = n" using okh by (simp add: graph_ok_def)
    show ?thesis
    proof (cases "links ts u")
      case False
      then show ?thesis using h ok' by (simp add: P_def m_def link_triple_matrix)
    next
      case True
      let ?a = "index_of ts (node_name u)" and ?b = "index_of ts (name_of_component u)"
      let ?M = "mat_set (mat_set (adjacency_matrix h) ?a ?b (severityToWeight (severity u))) ?b ?a
                  (severityToWeight (severity u))"
      have n1: "\<not> (i = ?a \<and> j = ?b)" "\<not> (i = ?b \<and> j = ?a)"
        using nj by (auto simp: joins_def)
      have n2: "\<not> (j = ?a \<and> i = ?b)" "\<not> (j = ?b \<and> i = ?a)"
        using nj by (auto simp: joins_def)
      have "?M ! i ! j = adjacency_matrix h ! i ! j"
        by (rule mat_set2_miss[OF lenh ij(1) n1])
      moreover have "?M ! j ! i = adjacency_matrix h ! j ! i"
        by (rule mat_set2_miss[OF lenh ij(2) n2])
      ultimately show ?thesis using h ok' True by (simp add: P_def m_def link_triple_matrix)
    qed
  qed
  have "P (fold (link_triple m) ts2 g2)"
    by (rule fold_inv[where P = P]) (simp_all add: P2 step)
  moreover have "link_all rnd ts g = fold (link_triple m) ts2 g2"
    by (simp add: link_all_def split g2_def g1_def m_def)
  ultimately show "adjacency_matrix (link_all rnd ts g) ! i ! j = severityToWeight (severity t)"
    and "adjacency_matrix (link_all rnd ts g) ! j ! i = severityToWeight (severity t)"
    by (simp_all add: P_def w_def)
qed

subsection \<open>The example data set, evaluated\<close>

lemma ex_index:
  "index_of ex_triples ''A'' = 0" "index_of ex_triples ''B'' = 1"
  "index_of ex_triples ''C'' = 2" "index_of ex_triples ''D'' = 3"
  by code_simp+

lemma ex_graph_edges:
  "edges ex_graph =
     [\<lparr>efrom = 0, eto = 1, predicate = ''p''\<rparr>, \<lparr>efrom = 0, eto = 1, predicate = ''q''\<rparr>,
      \<lparr>efrom = 1, eto = 2, predicate = ''r''\<rparr>]"
  by code_simp

lemma ex_graph_matrix:
  "adjacency_matrix ex_graph = [[0, 0.1, 0, 0], [0.1, 0, 0.4, 0], [0, 0.4, 0, 0], [0, 0, 0, 0]]"
  by code_simp

lemma ex_graph_adjacency: "adjacency_list ex_graph = [[1], [0, 2], [1], []]"
  by code_simp

lemma ex_graph_counts: "map connection_count (nodes ex_graph) = [2, 3, 1, 0]"
  by code_simp

lemma ex_graph_sizes: "length (nodes ex_graph) = 4" "length (velocities ex_graph) = 4"
  by code_simp+

subsection \<open>Claims about \<open>LoadTriples\<close>\<close>

text \<open>
  C10. After \<open>LoadTriples\<close> on any sequence of triples, whatever the state before and
  whatever \<open>std::rand()\<close> returns: every stored edge has \<open>from \<noteq> to\<close> and both indices
  below the node count; the adjacency matrix is symmetric; membership in the adjacency
  sets is symmetric; and the velocity array, the adjacency matrix (and each of its rows)
  and the adjacency list have exactly one entry per node.
\<close>

theorem LoadTriples_invariants:
  "let g' = LoadTriples rnd ts g; n = length (nodes g') in
     (\<forall>e\<in>set (edges g'). efrom e \<noteq> eto e \<and> efrom e < n \<and> eto e < n) \<and>
     (\<forall>i<n. \<forall>j<n. adjacency_matrix g' ! i ! j = adjacency_matrix g' ! j ! i) \<and>
     (\<forall>i<n. \<forall>j<n. j \<in> set (adjacency_list g' ! i) \<longleftrightarrow> i \<in> set (adjacency_list g' ! j)) \<and>
     length (velocities g') = n \<and>
     length (adjacency_matrix g') = n \<and>
     (\<forall>row\<in>set (adjacency_matrix g'). length row = n) \<and>
     length (adjacency_list g') = n"
proof -
  define g' where "g' = LoadTriples rnd ts g"
  define n where "n = node_count ts"
  have ok: "graph_ok n g'" unfolding g'_def n_def by (rule LoadTriples_ok)
  have n: "length (nodes g') = n" using ok by (simp add: graph_ok_def)
  have e: "\<forall>e\<in>set (edges g'). efrom e \<noteq> eto e \<and> efrom e < n \<and> eto e < n"
    using ok by (simp add: graph_ok_def)
  have m: "\<forall>i<n. \<forall>j<n. adjacency_matrix g' ! i ! j = adjacency_matrix g' ! j ! i"
    using ok by (simp add: graph_ok_def)
  have a: "\<forall>i<n. \<forall>j<n. j \<in> set (adjacency_list g' ! i) \<longleftrightarrow> i \<in> set (adjacency_list g' ! j)"
  proof (intro allI impI)
    fix i j assume "i < n" "j < n"
    then show "j \<in> set (adjacency_list g' ! i) \<longleftrightarrow> i \<in> set (adjacency_list g' ! j)"
      using adj_mem_iff[OF ok, of i j] adj_mem_iff[OF ok, of j i] by blast
  qed
  have l: "length (velocities g') = n" "length (adjacency_matrix g') = n"
    "length (adjacency_list g') = n"
    using ok by (simp_all add: graph_ok_def)
  have "\<forall>i<n. length (adjacency_matrix g' ! i) = n" using ok by (simp add: graph_ok_def)
  then have r: "\<forall>row\<in>set (adjacency_matrix g'). length row = n"
    using l(2) by (auto simp: in_set_conv_nth)
  show ?thesis
    unfolding Let_def g'_def[symmetric] n using e m a l r by blast
qed

theorem LoadTriples_invariants_witness:
  "length (nodes ex_graph) = 4 \<and>
   edges ex_graph ! 0 \<in> set (edges ex_graph) \<and>
   efrom (edges ex_graph ! 0) \<noteq> eto (edges ex_graph ! 0) \<and>
   efrom (edges ex_graph ! 0) < 4 \<and> eto (edges ex_graph ! 0) < 4 \<and>
   adjacency_matrix ex_graph ! 0 ! 1 = adjacency_matrix ex_graph ! 1 ! 0 \<and>
   (1 \<in> set (adjacency_list ex_graph ! 0)) = (0 \<in> set (adjacency_list ex_graph ! 1)) \<and>
   length (velocities ex_graph) = 4 \<and>
   length (adjacency_matrix ex_graph) = 4 \<and>
   adjacency_matrix ex_graph ! 2 \<in> set (adjacency_matrix ex_graph) \<and>
   length (adjacency_matrix ex_graph ! 2) = 4 \<and>
   length (adjacency_list ex_graph) = 4"
proof -
  have e: "edges ex_graph ! 0 \<in> set (edges ex_graph)" by (simp add: ex_graph_edges)
  have r: "adjacency_matrix ex_graph ! 2 \<in> set (adjacency_matrix ex_graph)"
    by (simp add: ex_graph_matrix)
  have i: "(0::nat) < 4" "(1::nat) < 4" by simp_all
  show ?thesis
    using LoadTriples_invariants[of "\<lambda>k. 0" ex_triples fresh] e r i
    unfolding Let_def ex_graph_def[symmetric] ex_graph_sizes by blast
qed

text \<open>
  C2, as the code has it. \<open>connection_count\<close> is incremented once per stored edge at
  each of its two ends, so after \<open>LoadTriples\<close> it is the number of stored edges (one per
  triple whose two labels are different nodes) that touch the node. It is never less than
  the size of the node's adjacency set, and equal to it exactly when no two of those
  edges lead to the same neighbour.
\<close>

theorem connection_count_counts_edges:
  "let g' = LoadTriples rnd ts g in
     edges g' = map (triple_edge ts) (filter (links ts) ts) \<and>
     (\<forall>i<length (nodes g').
        connection_count (nodes g' ! i) = int (length (filter (incident i) (edges g'))) \<and>
        int (length (adjacency_list g' ! i)) \<le> connection_count (nodes g' ! i) \<and>
        (connection_count (nodes g' ! i) = int (length (adjacency_list g' ! i)) \<longleftrightarrow>
           distinct (map (other_end i) (filter (incident i) (edges g')))))"
proof -
  define g' where "g' = LoadTriples rnd ts g"
  have ok: "graph_ok (node_count ts) g'" unfolding g'_def by (rule LoadTriples_ok)
  have n: "length (nodes g') = node_count ts" using ok by (simp add: graph_ok_def)
  have e: "edges g' = map (triple_edge ts) (filter (links ts) ts)"
    unfolding g'_def by (rule LoadTriples_edges)
  show ?thesis
    unfolding Let_def g'_def[symmetric] n
    using e count_vs_neighbours[OF ok] by blast
qed

theorem connection_count_counts_edges_witness:
  "(0::nat) < 4 \<and>
   connection_count (nodes ex_graph ! 0) = int (length (filter (incident 0) (edges ex_graph))) \<and>
   int (length (adjacency_list ex_graph ! 0)) \<le> connection_count (nodes ex_graph ! 0) \<and>
   \<not> distinct (map (other_end 0) (filter (incident 0) (edges ex_graph))) \<and>
   connection_count (nodes ex_graph ! 2) = int (length (adjacency_list ex_graph ! 2)) \<and>
   distinct (map (other_end 2) (filter (incident 2) (edges ex_graph)))"
proof -
  have d: "\<not> distinct (map (other_end 0) (filter (incident 0) (edges ex_graph)))"
    "distinct (map (other_end 2) (filter (incident 2) (edges ex_graph)))"
    by (simp_all add: ex_graph_edges incident_def other_end_def)
  have a: "\<forall>i<4. connection_count (nodes ex_graph ! i) = int (length (filter (incident i) (edges ex_graph))) \<and>
        int (length (adjacency_list ex_graph ! i)) \<le> connection_count (nodes ex_graph ! i) \<and>
        (connection_count (nodes ex_graph ! i) = int (length (adjacency_list ex_graph ! i)) \<longleftrightarrow>
           distinct (map (other_end i) (filter (incident i) (edges ex_graph))))"
    using connection_count_counts_edges[of "\<lambda>k. 0" ex_triples fresh]
    unfolding Let_def ex_graph_def[symmetric] ex_graph_sizes by blast
  show ?thesis using a[rule_format, of 0] a[rule_format, of 2] d by simp
qed

text \<open>
  C2, as the specification states it, fails on the example data set: node \<open>A\<close> (index 0)
  has the single neighbour \<open>B\<close>, and the two triples between \<open>A\<close> and \<open>B\<close> give it a
  \<open>connection_count\<close> of 2.
\<close>

theorem connection_count_counterexample:
  "adjacency_list ex_graph ! 0 = [1] \<and>
   connection_count (nodes ex_graph ! 0) = 2 \<and>
   connection_count (nodes ex_graph ! 0) \<noteq> int (length (adjacency_list ex_graph ! 0))"
proof -
  have "connection_count (nodes ex_graph ! 0) = map connection_count (nodes ex_graph) ! 0"
    by (simp add: ex_graph_sizes)
  then show ?thesis by (simp add: ex_graph_counts ex_graph_adjacency)
qed

text \<open>
  C6. When several triples produce the same undirected node pair, the adjacency-matrix
  weight at that pair (in both directions) is the severity weight of the last of them in
  the sequence; and whether \<open>b\<close> is in the adjacency set of \<open>a\<close> depends only on whether
  some kept triple joins the two, not on how many do.
\<close>

theorem duplicate_pair_last_weight:
  assumes "ts = ts1 @ t # ts2"
    and "links ts t"
    and "\<forall>u\<in>set ts2. \<not> joins ts u (index_of ts (node_name t)) (index_of ts (name_of_component t))"
  shows "let g' = LoadTriples rnd ts g;
             i = index_of ts (node_name t);
             j = index_of ts (name_of_component t)
         in adjacency_matrix g' ! i ! j = severityToWeight (severity t) \<and>
            adjacency_matrix g' ! j ! i = severityToWeight (severity t) \<and>
            (\<forall>a<length (nodes g'). \<forall>b.
               b \<in> set (adjacency_list g' ! a) \<longleftrightarrow> (\<exists>u\<in>set ts. links ts u \<and> joins ts u a b))"
proof -
  define g' where "g' = LoadTriples rnd ts g"
  have ok: "graph_ok (node_count ts) g'" unfolding g'_def by (rule LoadTriples_ok)
  have n: "length (nodes g') = node_count ts" using ok by (simp add: graph_ok_def)
  have e: "edges g' = map (triple_edge ts) (filter (links ts) ts)"
    unfolding g'_def by (rule LoadTriples_edges)
  have w: "adjacency_matrix g' ! index_of ts (node_name t) ! index_of ts (name_of_component t)
             = severityToWeight (severity t)"
    "adjacency_matrix g' ! index_of ts (name_of_component t) ! index_of ts (node_name t)
             = severityToWeight (severity t)"
    unfolding g'_def LoadTriples_fields
    using last_write_wins[OF assms(1,2) refl refl assms(3)] by simp_all
  have a: "b \<in> set (adjacency_list g' ! a) \<longleftrightarrow> (\<exists>u\<in>set ts. links ts u \<and> joins ts u a b)"
    if "a < node_count ts" for a b
    unfolding adj_mem_iff[OF ok that] e by (auto simp: triple_edge_def joins_def)
  show ?thesis
    unfolding Let_def g'_def[symmetric] n using w a by blast
qed

theorem duplicate_pair_last_weight_witness:
  "ex_triples = [t_AB_high] @ t_AB_low # [t_BC, t_DD] \<and>
   links ex_triples t_AB_low \<and>
   \<not> joins ex_triples t_BC 0 1 \<and>
   \<not> joins ex_triples t_DD 0 1 \<and>
   severityToWeight (severity t_AB_high) = 0.8 \<and>
   adjacency_matrix ex_graph ! 0 ! 1 = 0.1 \<and>
   adjacency_matrix ex_graph ! 1 ! 0 = 0.1 \<and>
   (1 \<in> set (adjacency_list ex_graph ! 0)) =
     (\<exists>u\<in>set ex_triples. links ex_triples u \<and> joins ex_triples u 0 1) \<and>
   (2 \<in> set (adjacency_list ex_graph ! 0)) =
     (\<exists>u\<in>set ex_triples. links ex_triples u \<and> joins ex_triples u 0 2)"
proof -
  have i: "index_of ex_triples (node_name t_AB_low) = 0"
    "index_of ex_triples (name_of_component t_AB_low) = 1"
    by (simp_all add: t_AB_low_def ex_index)
  have h1: "ex_triples = [t_AB_high] @ t_AB_low # [t_BC, t_DD]" by (simp add: ex_triples_def)
  have h2: "links ex_triples t_AB_low" by (simp add: links_def i)
  have h3: "\<not> joins ex_triples t_BC 0 1" "\<not> joins ex_triples t_DD 0 1"
    by (simp_all add: joins_def t_BC_def t_DD_def ex_index)
  have h3': "\<forall>u\<in>set [t_BC, t_DD]. \<not> joins ex_triples u
      (index_of ex_triples (node_name t_AB_low)) (index_of ex_triples (name_of_component t_AB_low))"
    using h3 by (simp add: i)
  have w: "severityToWeight (severity t_AB_low) = 0.1" "severityToWeight (severity t_AB_high) = 0.8"
    by (simp_all add: t_AB_low_def t_AB_high_def severityToWeight_def)
  have z: "(0::nat) < 4" by simp
  show ?thesis
    using duplicate_pair_last_weight[OF h1 h2 h3', of "\<lambda>k. 0" fresh] h1 h2 h3 w(2) z
    unfolding Let_def ex_graph_def[symmetric] ex_graph_sizes i w(1) by blast
qed

section \<open>Properties of \<open>predictLinksForNode\<close>\<close>

lemma fork_graph_adjacency: "adjacency_list fork_graph = [[1], [0, 2, 3], [1, 4], [1], [2]]"
  by code_simp

lemma fork_graph_size: "length (nodes fork_graph) = 5"
  by code_simp

lemma score_increment_pos: "0 < score_increment al k"
  by (simp add: score_increment_def ln_gt_zero)

lemma max_score_single: "0 < s \<Longrightarrow> max_score [(k, s)] = s"
  by (simp add: max_score_def)

lemma ex_scores_A: "adamic_adar_scores (adjacency_list ex_graph) 0 = [(2, 1)]"
  by (simp add: ex_graph_adjacency adamic_adar_scores_def visit_grand_neighbor_def
      score_increment_def)

lemma ex_scores_B: "adamic_adar_scores (adjacency_list ex_graph) 1 = []"
  by (simp add: ex_graph_adjacency adamic_adar_scores_def visit_grand_neighbor_def)

lemma fork_scores: "adamic_adar_scores (adjacency_list fork_graph) 0 = [(2, 1 / ln 2), (3, 1)]"
  by (simp add: fork_graph_adjacency adamic_adar_scores_def visit_grand_neighbor_def
      score_increment_def)

lemma fork_spec_scores: "spec_scores (adjacency_list fork_graph) 0 = [(2, 1 / ln 3), (3, 1 / ln 3)]"
  by (simp add: fork_graph_adjacency spec_scores_def spec_visit_def score_increment_def)

text \<open>
  C1. The specification takes the increment at the common neighbour \<open>n\<close>; the source,
  whose comment names the Adamic-Adar index, takes it at the candidate
  (\<open>adjacency_list[grand_neighbor_idx].size()\<close>). On the fork, seen from \<open>A\<close>: the code
  scores \<open>C\<close> (two neighbours) with \<open>1 / ln 2\<close> and \<open>D\<close> (one neighbour) with 1, so that
  \<open>D\<close> is returned with the normalised score \<open>ln 2\<close>, tier Moderate; with the increment
  of the specification both get \<open>1 / ln 3\<close>, for the three neighbours of \<open>B\<close>.
\<close>

theorem increment_uses_candidate_degree:
  "adamic_adar_scores (adjacency_list fork_graph) 0 = [(2, 1 / ln 2), (3, 1)] \<and>
   spec_scores (adjacency_list fork_graph) 0 = [(2, 1 / ln 3), (3, 1 / ln 3)] \<and>
   adamic_adar_scores (adjacency_list fork_graph) 0 \<noteq> spec_scores (adjacency_list fork_graph) 0 \<and>
   predictLinksForNode fork_graph 0 = [(2, 1), (3, ln 2)] \<and>
   getConceptualMeaning (ln 2) = ''Moderate''"
proof -
  have l2: "ln (2::real) < 1" by (rule ln_2_less_1)
  have l2': "0 < ln (2::real)" by (simp add: ln_gt_zero)
  have l3: "ln (2::real) \<noteq> ln 3" by simp
  have ne: "adamic_adar_scores (adjacency_list fork_graph) 0 \<noteq> spec_scores (adjacency_list fork_graph) 0"
    using l3 by (simp add: fork_scores fork_spec_scores)
  have mx: "max_score [(2, 1 / ln 2), (3, 1)] = 1 / ln 2"
    using l2 l2' by (simp add: max_score_def field_simps)
  have p: "predictLinksForNode fork_graph 0 = [(2, 1), (3, ln 2)]"
    using l2 l2' by (simp add: predictLinksForNode_def fork_graph_size fork_scores mx Let_def
        sort_predictions_def)
  have half: "(1/2 :: real) \<le> ln 2"
  proof -
    have "exp (1/2 :: real) \<le> 2"
    proof -
      have "(exp (1/2 :: real)) ^ 2 = exp 1" using exp_double[of "1/2 :: real"] by simp
      then have "(exp (1/2 :: real)) ^ 2 \<le> 2 ^ 2" using exp_le by simp
      then show ?thesis by (rule power2_le_imp_le) simp
    qed
    then have "ln (exp (1/2 :: real)) \<le> ln 2" by (subst ln_le_cancel_iff) simp_all
    then show ?thesis by simp
  qed
  have four_fifths: "ln (2::real) < 4/5"
  proof -
    have "(6/5 :: real) \<le> exp (1/5)" using exp_ge_add_one_self[of "1/5 :: real"] by simp
    then have "(6/5 :: real) ^ 4 \<le> exp (1/5) ^ 4" by (rule power_mono) simp
    moreover have "exp (1/5 :: real) ^ 4 = exp (4/5)"
      using exp_of_nat_mult[of 4 "1/5 :: real"] by simp
    ultimately have "(2::real) < exp (4/5)" by (simp add: power4_eq_xxxx)
    then have "ln (2::real) < ln (exp (4/5))" by (subst ln_less_cancel_iff) simp_all
    then show ?thesis by simp
  qed
  have t: "getConceptualMeaning (ln 2) = ''Moderate''"
    using four_fifths half by (simp add: getConceptualMeaning_def)
  show ?thesis using ne p t by (simp add: fork_scores fork_spec_scores)
qed

text \<open>
  C7. The bridge: the query node \<open>a\<close> has the single neighbour \<open>b\<close>, whose neighbours are
  \<open>a\<close> and \<open>c\<close>, and \<open>c\<close> is not a neighbour of \<open>a\<close>. Then \<open>predictLinksForNode\<close> returns
  exactly one candidate, \<open>c\<close>, with normalised score 1, and the tier of that score is
  Strong.
\<close>

theorem bridge_prediction:
  assumes "0 \<le> a" and "a < int (length (nodes g))"
    and "adjacency_list g ! nat a = [b]"
    and "distinct (adjacency_list g ! b)"
    and "set (adjacency_list g ! b) = {nat a, c}"
    and "c \<noteq> nat a" and "c \<noteq> b"
  shows "predictLinksForNode g a = [(c, 1)] \<and> getConceptualMeaning 1 = ''Strong''"
proof -
  define s where "s = score_increment (adjacency_list g) c"
  have s: "0 < s" unfolding s_def by (rule score_increment_pos)
  have two: "adjacency_list g ! b = [nat a, c] \<or> adjacency_list g ! b = [c, nat a]"
  proof -
    have "length (adjacency_list g ! b) = 2"
      using assms(4,5,6) distinct_card[of "adjacency_list g ! b"] by simp
    then obtain x y where xy: "adjacency_list g ! b = [x, y]"
      by (auto simp: length_Suc_conv eval_nat_numeral)
    then show ?thesis using assms(5,6) by (auto simp: doubleton_eq_iff)
  qed
  have sc: "adamic_adar_scores (adjacency_list g) (nat a) = [(c, s)]"
    using two assms(3,6,7)
    by (auto simp: adamic_adar_scores_def visit_grand_neighbor_def s_def)
  have "predictLinksForNode g a = [(c, 1)]"
    using assms(1,2) s
    by (simp add: predictLinksForNode_def sc max_score_single Let_def sort_predictions_def)
  then show ?thesis by (simp add: getConceptualMeaning_def)
qed

theorem bridge_prediction_witness:
  "(0::int) \<le> 0 \<and> (0::int) < int (length (nodes ex_graph)) \<and>
   adjacency_list ex_graph ! nat 0 = [1] \<and>
   distinct (adjacency_list ex_graph ! 1) \<and>
   set (adjacency_list ex_graph ! 1) = {nat 0, 2} \<and>
   predictLinksForNode ex_graph 0 = [(2, 1)] \<and> getConceptualMeaning 1 = ''Strong''"
proof -
  have h: "(0::int) \<le> 0" "(0::int) < int (length (nodes ex_graph))"
    "adjacency_list ex_graph ! nat 0 = [1]"
    "distinct (adjacency_list ex_graph ! 1)"
    "set (adjacency_list ex_graph ! 1) = {nat 0, 2}"
    "(2::nat) \<noteq> nat 0" "(2::nat) \<noteq> 1"
    by (simp_all add: ex_graph_sizes ex_graph_adjacency)
  show ?thesis
    using bridge_prediction[OF h] h(1-5) by simp
qed

text \<open>
  C8. \<open>predictLinksForNode\<close> returns the empty list when the index is negative or not
  below the node count, hence for every index when there are no nodes; when the query
  node has no neighbours; and when the largest accumulated score is 0. A non-empty result
  is only produced with a positive maximum, the one divisor of the normalisation.
\<close>

theorem predict_empty_results:
  "(node_index < 0 \<or> int (length (nodes g)) \<le> node_index \<longrightarrow> predictLinksForNode g node_index = []) \<and>
   (nodes g = [] \<longrightarrow> predictLinksForNode g node_index = []) \<and>
   (adjacency_list g ! nat node_index = [] \<longrightarrow> predictLinksForNode g node_index = []) \<and>
   (max_score (adamic_adar_scores (adjacency_list g) (nat node_index)) = 0 \<longrightarrow>
      predictLinksForNode g node_index = []) \<and>
   (predictLinksForNode g node_index \<noteq> [] \<longrightarrow>
      0 < max_score (adamic_adar_scores (adjacency_list g) (nat node_index)))"
proof -
  have 1: "node_index < 0 \<or> int (length (nodes g)) \<le> node_index \<longrightarrow> predictLinksForNode g node_index = []"
    by (simp add: predictLinksForNode_def)
  have 2: "nodes g = [] \<longrightarrow> predictLinksForNode g node_index = []"
    by (auto simp: predictLinksForNode_def)
  have 3: "adjacency_list g ! nat node_index = [] \<longrightarrow> predictLinksForNode g node_index = []"
    by (simp add: predictLinksForNode_def adamic_adar_scores_def max_score_def
        sort_predictions_def)
  have 4: "max_score (adamic_adar_scores (adjacency_list g) (nat node_index)) = 0 \<longrightarrow>
      predictLinksForNode g node_index = []"
    by (simp add: predictLinksForNode_def Let_def sort_predictions_def)
  have 5: "predictLinksForNode g node_index \<noteq> [] \<longrightarrow>
      0 < max_score (adamic_adar_scores (adjacency_list g) (nat node_index))"
    by (auto simp: predictLinksForNode_def Let_def sort_predictions_def split: if_splits)
  show ?thesis using 1 2 3 4 5 by blast
qed

theorem predict_empty_results_witness:
  "predictLinksForNode ex_graph (- 1) = [] \<and>
   int (length (nodes ex_graph)) \<le> 4 \<and> predictLinksForNode ex_graph 4 = [] \<and>
   nodes fresh = [] \<and> predictLinksForNode fresh 0 = [] \<and>
   adjacency_list ex_graph ! nat 3 = [] \<and> predictLinksForNode ex_graph 3 = [] \<and>
   adjacency_list ex_graph ! nat 1 \<noteq> [] \<and>
   max_score (adamic_adar_scores (adjacency_list ex_graph) (nat 1)) = 0 \<and>
   predictLinksForNode ex_graph 1 = [] \<and>
   predictLinksForNode ex_graph 0 \<noteq> [] \<and>
   0 < max_score (adamic_adar_scores (adjacency_list ex_graph) (nat 0))"
proof -
  have a: "int (length (nodes ex_graph)) \<le> 4" "nodes fresh = []"
    "adjacency_list ex_graph ! nat 3 = []" "adjacency_list ex_graph ! nat 1 \<noteq> []"
    by (simp_all add: ex_graph_sizes fresh_def ex_graph_adjacency)
  have "nat 1 = (1::nat)" by simp
  then have c: "max_score (adamic_adar_scores (adjacency_list ex_graph) (nat 1)) = 0"
    by (simp only: ex_scores_B) (simp add: max_score_def)
  have b: "predictLinksForNode ex_graph 0 \<noteq> []"
    by (simp add: predictLinksForNode_def ex_graph_sizes ex_scores_A max_score_def Let_def
        sort_predictions_def)
  show ?thesis
    using predict_empty_results[of "- 1" ex_graph] predict_empty_results[of 4 ex_graph]
      predict_empty_results[of 0 fresh] predict_empty_results[of 3 ex_graph]
      predict_empty_results[of 1 ex_graph] predict_empty_results[of 0 ex_graph] a b c
    by simp
qed

section \<open>Properties of \<open>UpdatePhysics\<close>\<close>

subsection \<open>The step, node by node\<close>

lemma UpdatePhysics_nth:
  assumes "k < length (nodes g)"
  shows "nodes (UpdatePhysics g) ! k =
           fst (integrate_node (nodes g ! k)
                  (attraction (nodes g) (edges g) (repulsion (nodes g) (velocities g)) ! k))"
    and "velocities (UpdatePhysics g) ! k =
           snd (integrate_node (nodes g ! k)
                  (attraction (nodes g) (edges g) (repulsion (nodes g) (velocities g)) ! k))"
  using assms by (simp_all add: UpdatePhysics_def Let_def)

lemma fold_additive:
  fixes c :: "ImVec2 \<Rightarrow> real"
  assumes step: "\<And>x vs. x \<in> set xs \<Longrightarrow> length vs = n \<Longrightarrow>
                   length (f x vs) = n \<and> c (f x vs ! k) = c (vs ! k) + d x"
    and len: "length vs = n"
  shows "length (fold f xs vs) = n \<and> c (fold f xs vs ! k) = c (vs ! k) + sum_list (map d xs)"
  using step len
proof (induction xs arbitrary: vs)
  case Nil
  then show ?case by simp
next
  case (Cons x xs)
  have s: "length (f x vs) = n" "c (f x vs ! k) = c (vs ! k) + d x"
    using Cons.prems(1)[of x vs] Cons.prems(2) by simp_all
  have "length (fold f xs (f x vs)) = n \<and>
        c (fold f xs (f x vs) ! k) = c (f x vs ! k) + sum_list (map d xs)"
    by (rule Cons.IH) (simp_all add: Cons.prems(1) s(1))
  then show ?case using s(2) by simp
qed

lemma sum_list_pick:
  fixes g :: "nat \<Rightarrow> real"
  shows "distinct xs \<Longrightarrow> (\<Sum>j\<leftarrow>xs. if j = k then g j else 0) = (if k \<in> set xs then g k else 0)"
  by (induction xs) auto

lemma repulsion_vector_swap:
  "repulsion_vector q p = (- fst (repulsion_vector p q), - snd (repulsion_vector p q))"
proof -
  have e: "(fst q - fst p) * (fst q - fst p) + (snd q - snd p) * (snd q - snd p) =
           (fst p - fst q) * (fst p - fst q) + (snd p - snd q) * (snd p - snd q)"
    by (simp add: algebra_simps)
  have m: "(fst q - fst p) = - (fst p - fst q)" "(snd q - snd p) = - (snd p - snd q)" by simp_all
  show ?thesis
    unfolding repulsion_vector_def Let_def fst_conv snd_conv e
    by (simp only: m minus_divide_left[symmetric] mult_minus_left)
qed

lemma repel_pair_effect:
  fixes c :: "ImVec2 \<Rightarrow> real"
  assumes add: "\<And>a b. c (vec_add a b) = c a + c b" and sub: "\<And>a b. c (vec_sub a b) = c a - c b"
    and ij: "i < n" "j < n" "i \<noteq> j" and k: "k < n" and len: "length vs = n"
  shows "length (repel_pair ns i j vs) = n \<and>
         c (repel_pair ns i j vs ! k) =
           c (vs ! k) +
           (if dragging (ns ! j) then 0
            else (if k = i then c (repulsion_vector (position (ns ! i)) (position (ns ! j))) else 0) -
                 (if k = j then c (repulsion_vector (position (ns ! i)) (position (ns ! j))) else 0))"
proof (cases "dragging (ns ! j)")
  case True
  then show ?thesis using len by (simp add: repel_pair_def)
next
  case False
  define fv where "fv = repulsion_vector (position (ns ! i)) (position (ns ! j))"
  have r: "repel_pair ns i j vs = (vs[i := vec_add (vs ! i) fv])[j := vec_sub (vs ! j) fv]"
    using False ij(3) by (simp add: repel_pair_def Let_def fv_def)
  have "c (repel_pair ns i j vs ! k) =
          c (vs ! k) + ((if k = i then c fv else 0) - (if k = j then c fv else 0))"
  proof (cases "k = j")
    case True
    then show ?thesis using ij len by (simp add: r sub)
  next
    case nj: False
    show ?thesis
    proof (cases "k = i")
      case True
      then show ?thesis using ij len nj by (simp add: r add)
    next
      case False
      then show ?thesis using nj by (simp add: r)
    qed
  qed
  then show ?thesis using False len by (simp add: r fv_def)
qed

lemma repel_row_effect:
  fixes c :: "ImVec2 \<Rightarrow> real"
  assumes add: "\<And>a b. c (vec_add a b) = c a + c b" and sub: "\<And>a b. c (vec_sub a b) = c a - c b"
    and i: "i < length ns" and k: "k < length ns" and len: "length vs = length ns"
  shows "length (repel_row ns i vs) = length ns \<and>
         c (repel_row ns i vs ! k) =
           c (vs ! k) +
           (if dragging (ns ! i) \<or> dragging (ns ! k) then 0
            else if i = k
                 then (\<Sum>j\<leftarrow>[k + 1..<length ns].
                         if dragging (ns ! j) then 0
                         else c (repulsion_vector (position (ns ! k)) (position (ns ! j))))
            else if i < k then - c (repulsion_vector (position (ns ! i)) (position (ns ! k)))
            else 0)"
proof (cases "dragging (ns ! i)")
  case True
  then show ?thesis using len by (simp add: repel_row_def)
next
  case False
  define P where "P = (\<lambda>j. if dragging (ns ! j) then 0
            else (if k = i then c (repulsion_vector (position (ns ! i)) (position (ns ! j))) else 0) -
                 (if k = j then c (repulsion_vector (position (ns ! i)) (position (ns ! j))) else 0))"
  have f: "length (fold (repel_pair ns i) [i + 1..<length ns] vs) = length ns \<and>
           c (fold (repel_pair ns i) [i + 1..<length ns] vs ! k) =
             c (vs ! k) + sum_list (map P [i + 1..<length ns])"
  proof (rule fold_additive[OF _ len])
    fix x and ws :: "ImVec2 list"
    assume x: "x \<in> set [i + 1..<length ns]" and l: "length ws = length ns"
    have "x < length ns" "i \<noteq> x" using x by auto
    then show "length (repel_pair ns i x ws) = length ns \<and>
               c (repel_pair ns i x ws ! k) = c (ws ! k) + P x"
      unfolding P_def using repel_pair_effect[OF add sub i _ _ k l, of x ns] by simp
  qed
  have s: "sum_list (map P [i + 1..<length ns]) =
           (if dragging (ns ! k) then 0
            else if i = k
                 then (\<Sum>j\<leftarrow>[k + 1..<length ns].
                         if dragging (ns ! j) then 0
                         else c (repulsion_vector (position (ns ! k)) (position (ns ! j))))
            else if i < k then - c (repulsion_vector (position (ns ! i)) (position (ns ! k)))
            else 0)"
  proof (cases "i = k")
    case True
    have "sum_list (map P [k + 1..<length ns]) =
          sum_list (map (\<lambda>j. if dragging (ns ! j) then 0
                    else c (repulsion_vector (position (ns ! k)) (position (ns ! j)))) [k + 1..<length ns])"
      by (rule arg_cong[where f = sum_list], rule map_cong[OF refl]) (auto simp: P_def True)
    then show ?thesis using False unfolding True by simp
  next
    case ne: False
    have "sum_list (map P [i + 1..<length ns]) =
          sum_list (map (\<lambda>j. if j = k then (if dragging (ns ! k) then 0
                       else - c (repulsion_vector (position (ns ! i)) (position (ns ! k)))) else 0)
            [i + 1..<length ns])"
      by (rule arg_cong[where f = sum_list], rule map_cong[OF refl]) (use ne in \<open>auto simp: P_def\<close>)
    also have "\<dots> =
          (if k \<in> set [i + 1..<length ns]
           then (if dragging (ns ! k) then 0
                 else - c (repulsion_vector (position (ns ! i)) (position (ns ! k)))) else 0)"
      by (rule sum_list_pick[OF distinct_upt])
    finally have "sum_list (map P [i + 1..<length ns]) =
          (if k \<in> set [i + 1..<length ns]
           then (if dragging (ns ! k) then 0
                 else - c (repulsion_vector (position (ns ! i)) (position (ns ! k)))) else 0)" .
    then show ?thesis using ne k by auto
  qed
  show ?thesis
    using f s False by (simp add: repel_row_def)
qed

lemma upt_split:
  assumes "k < n"
  shows "[0..<n] = [0..<k] @ k # [k + 1..<n]"
proof -
  have "[0..<n] = [0..<k] @ [k..<n]"
    using upt_add_eq_append[of 0 k "n - k"] assms by simp
  moreover have "[k..<n] = k # [k + 1..<n]"
    using assms by (simp add: upt_conv_Cons)
  ultimately show ?thesis by simp
qed

lemma repulsion_effect:
  fixes c :: "ImVec2 \<Rightarrow> real"
  assumes add: "\<And>a b. c (vec_add a b) = c a + c b" and sub: "\<And>a b. c (vec_sub a b) = c a - c b"
    and swap: "\<And>p q. c (repulsion_vector q p) = - c (repulsion_vector p q)"
    and k: "k < length ns" and len: "length vs = length ns"
  shows "length (repulsion ns vs) = length ns \<and>
         c (repulsion ns vs ! k) =
           c (vs ! k) +
           (if dragging (ns ! k) then 0
            else (\<Sum>i\<leftarrow>filter (\<lambda>i. i \<noteq> k \<and> \<not> dragging (ns ! i)) [0..<length ns].
                    c (repulsion_vector (position (ns ! k)) (position (ns ! i)))))"
proof -
  define n where "n = length ns"
  define R where "R = (\<lambda>i. c (repulsion_vector (position (ns ! k)) (position (ns ! i))))"
  define Q where "Q = (\<lambda>i. if dragging (ns ! i) \<or> dragging (ns ! k) then 0
            else if i = k
                 then (\<Sum>j\<leftarrow>[k + 1..<length ns]. if dragging (ns ! j) then 0 else R j)
            else if i < k then - c (repulsion_vector (position (ns ! i)) (position (ns ! k)))
            else 0)"
  have f: "length (fold (repel_row ns) [0..<length ns] vs) = length ns \<and>
           c (fold (repel_row ns) [0..<length ns] vs ! k) = c (vs ! k) + sum_list (map Q [0..<length ns])"
  proof (rule fold_additive[OF _ len])
    fix x and ws :: "ImVec2 list"
    assume x: "x \<in> set [0..<length ns]" and l: "length ws = length ns"
    have "x < length ns" using x by simp
    then show "length (repel_row ns x ws) = length ns \<and> c (repel_row ns x ws ! k) = c (ws ! k) + Q x"
      unfolding Q_def R_def using repel_row_effect[OF add sub _ k l, of x] by simp
  qed
  have total: "sum_list (map Q [0..<length ns]) =
      (if dragging (ns ! k) then 0
       else (\<Sum>i\<leftarrow>filter (\<lambda>i. i \<noteq> k \<and> \<not> dragging (ns ! i)) [0..<length ns]. R i))"
  proof (cases "dragging (ns ! k)")
    case True
    have "sum_list (map Q [0..<length ns]) = sum_list (map (\<lambda>i. 0) [0..<length ns])"
      by (rule arg_cong[where f = sum_list], rule map_cong[OF refl]) (simp add: Q_def True)
    then show ?thesis using True by simp
  next
    case False
    have sw: "c (repulsion_vector (position (ns ! i)) (position (ns ! k))) = - R i" for i
      unfolding R_def by (rule swap)
    have lo: "sum_list (map Q [0..<k]) = (\<Sum>i\<leftarrow>[0..<k]. if i \<noteq> k \<and> \<not> dragging (ns ! i) then R i else 0)"
      by (rule arg_cong[where f = sum_list], rule map_cong[OF refl])
         (auto simp: Q_def False sw)
    have hi: "sum_list (map Q [k + 1..<length ns]) = 0"
    proof -
      have "sum_list (map Q [k + 1..<length ns]) = sum_list (map (\<lambda>i. 0) [k + 1..<length ns])"
        by (rule arg_cong[where f = sum_list], rule map_cong[OF refl]) (auto simp: Q_def)
      then show ?thesis by simp
    qed
    have mid: "Q k = (\<Sum>i\<leftarrow>[k + 1..<length ns]. if i \<noteq> k \<and> \<not> dragging (ns ! i) then R i else 0)"
    proof -
      have "(\<Sum>j\<leftarrow>[k + 1..<length ns]. if dragging (ns ! j) then 0 else R j) =
            (\<Sum>i\<leftarrow>[k + 1..<length ns]. if i \<noteq> k \<and> \<not> dragging (ns ! i) then R i else 0)"
        by (rule arg_cong[where f = sum_list], rule map_cong[OF refl]) auto
      then show ?thesis by (simp add: Q_def False)
    qed
    have "sum_list (map Q [0..<length ns]) = sum_list (map Q [0..<k]) + Q k + sum_list (map Q [k + 1..<length ns])"
      by (subst upt_split[OF k]) simp
    also have "\<dots> = (\<Sum>i\<leftarrow>[0..<k]. if i \<noteq> k \<and> \<not> dragging (ns ! i) then R i else 0) +
        (\<Sum>i\<leftarrow>[k + 1..<length ns]. if i \<noteq> k \<and> \<not> dragging (ns ! i) then R i else 0)"
      unfolding lo hi mid by simp
    also have "\<dots> = (\<Sum>i\<leftarrow>[0..<length ns]. if i \<noteq> k \<and> \<not> dragging (ns ! i) then R i else 0)"
      using arg_cong[OF upt_split[OF k], of "\<lambda>xs. sum_list (map (\<lambda>i. if i \<noteq> k \<and> \<not> dragging (ns ! i) then R i else 0) xs)"]
      by simp
    also have "\<dots> = (\<Sum>i\<leftarrow>filter (\<lambda>i. i \<noteq> k \<and> \<not> dragging (ns ! i)) [0..<length ns]. R i)"
      by (simp add: sum_list_map_filter')
    finally show ?thesis using False by simp
  qed
  show ?thesis using f total unfolding repulsion_def R_def by simp
qed

lemma attract_edge_effect:
  fixes c :: "ImVec2 \<Rightarrow> real"
  assumes add: "\<And>a b. c (vec_add a b) = c a + c b" and sub: "\<And>a b. c (vec_sub a b) = c a - c b"
    and e: "efrom e < length vs" "eto e < length vs"
  shows "length (attract_edge ns e vs) = length vs \<and>
         c (attract_edge ns e vs ! k) =
           c (vs ! k) +
           (if dragging (ns ! k) then 0
            else (if efrom e = k then c (edge_spring ns e) else 0) -
                 (if eto e = k then c (edge_spring ns e) else 0))"
proof -
  have l: "length (attract_edge ns e vs) = length vs"
    by (simp add: attract_edge_def Let_def)
  have v: "c (attract_edge ns e vs ! k) =
           c (vs ! k) +
           (if dragging (ns ! k) then 0
            else (if efrom e = k then c (edge_spring ns e) else 0) -
                 (if eto e = k then c (edge_spring ns e) else 0))"
  proof (cases "eto e = k")
    case True
    show ?thesis
    proof (cases "efrom e = k")
      case f: True
      then show ?thesis using True e
        by (simp add: attract_edge_def Let_def edge_spring_def add sub)
    next
      case f: False
      then show ?thesis using True e
        by (simp add: attract_edge_def Let_def edge_spring_def add sub)
    qed
  next
    case False
    show ?thesis
    proof (cases "efrom e = k")
      case f: True
      then show ?thesis using False e
        by (simp add: attract_edge_def Let_def edge_spring_def add sub)
    next
      case f: False
      then show ?thesis using False e
        by (simp add: attract_edge_def Let_def edge_spring_def add sub)
    qed
  qed
  show ?thesis using l v by simp
qed

lemma attraction_effect:
  fixes c :: "ImVec2 \<Rightarrow> real"
  assumes add: "\<And>a b. c (vec_add a b) = c a + c b" and sub: "\<And>a b. c (vec_sub a b) = c a - c b"
    and es: "\<forall>e\<in>set es. efrom e < n \<and> eto e < n" and len: "length vs = n"
  shows "c (attraction ns es vs ! k) =
           c (vs ! k) +
           (if dragging (ns ! k) then 0
            else (\<Sum>e\<leftarrow>filter (\<lambda>e. efrom e = k) es. c (edge_spring ns e)) -
                 (\<Sum>e\<leftarrow>filter (\<lambda>e. eto e = k) es. c (edge_spring ns e)))"
proof -
  define E where "E = (\<lambda>e. if dragging (ns ! k) then 0
            else (if efrom e = k then c (edge_spring ns e) else 0) -
                 (if eto e = k then c (edge_spring ns e) else 0))"
  have f: "length (fold (attract_edge ns) es vs) = n \<and>
           c (fold (attract_edge ns) es vs ! k) = c (vs ! k) + sum_list (map E es)"
  proof (rule fold_additive[OF _ len])
    fix x and ws :: "ImVec2 list"
    assume x: "x \<in> set es" and l: "length ws = n"
    have "efrom x < length ws" "eto x < length ws" using es x l by simp_all
    then show "length (attract_edge ns x ws) = n \<and> c (attract_edge ns x ws ! k) = c (ws ! k) + E x"
      unfolding E_def using attract_edge_effect[OF add sub, of x ws ns k] l by simp
  qed
  have "sum_list (map E es) =
      (if dragging (ns ! k) then 0
       else (\<Sum>e\<leftarrow>filter (\<lambda>e. efrom e = k) es. c (edge_spring ns e)) -
            (\<Sum>e\<leftarrow>filter (\<lambda>e. eto e = k) es. c (edge_spring ns e)))"
    unfolding E_def by (induction es) (simp_all add: sum_list_map_filter')
  then show ?thesis using f by (simp add: attraction_def)
qed

lemma forces_total:
  assumes len: "length vs = length ns"
    and es: "\<forall>e\<in>set es. efrom e < length ns \<and> eto e < length ns"
    and k: "k < length ns"
  shows "attraction ns es (repulsion ns vs) ! k =
           (if dragging (ns ! k) then vs ! k
            else vec_add (vec_add (vs ! k) (net_repulsion ns k)) (net_spring ns es k))"
proof -
  have f: "fst (vec_add a b) = fst a + fst b" "fst (vec_sub a b) = fst a - fst b"
    and s: "snd (vec_add a b) = snd a + snd b" "snd (vec_sub a b) = snd a - snd b" for a b
    by (simp_all add: vec_add_def vec_sub_def)
  have fw: "fst (repulsion_vector q p) = - fst (repulsion_vector p q)"
    and sw: "snd (repulsion_vector q p) = - snd (repulsion_vector p q)" for p q
    using repulsion_vector_swap[of q p] by simp_all
  note rf = repulsion_effect[of fst, OF f fw k len]
  note rs = repulsion_effect[of snd, OF s sw k len]
  have len': "length (repulsion ns vs) = length ns" using rf by blast
  note af = attraction_effect[of fst, OF f es len', of ns k]
  note as = attraction_effect[of snd, OF s es len', of ns k]
  have nr: "fst (net_repulsion ns k) =
              (\<Sum>i\<leftarrow>filter (\<lambda>i. i \<noteq> k \<and> \<not> dragging (ns ! i)) [0..<length ns].
                 fst (repulsion_vector (position (ns ! k)) (position (ns ! i))))"
    "snd (net_repulsion ns k) =
              (\<Sum>i\<leftarrow>filter (\<lambda>i. i \<noteq> k \<and> \<not> dragging (ns ! i)) [0..<length ns].
                 snd (repulsion_vector (position (ns ! k)) (position (ns ! i))))"
    by (simp_all add: net_repulsion_def vec_sum_def comp_def)
  have sp: "fst (net_spring ns es k) =
              (\<Sum>e\<leftarrow>filter (\<lambda>e. efrom e = k) es. fst (edge_spring ns e)) -
              (\<Sum>e\<leftarrow>filter (\<lambda>e. eto e = k) es. fst (edge_spring ns e))"
    "snd (net_spring ns es k) =
              (\<Sum>e\<leftarrow>filter (\<lambda>e. efrom e = k) es. snd (edge_spring ns e)) -
              (\<Sum>e\<leftarrow>filter (\<lambda>e. eto e = k) es. snd (edge_spring ns e))"
    by (simp_all add: net_spring_def vec_sum_def vec_sub_def comp_def)
  show ?thesis
  proof (cases "dragging (ns ! k)")
    case True
    have "fst (attraction ns es (repulsion ns vs) ! k) = fst (vs ! k)"
      "snd (attraction ns es (repulsion ns vs) ! k) = snd (vs ! k)"
      using af as rf rs True by simp_all
    then show ?thesis using True by (simp add: prod_eq_iff)
  next
    case False
    have "fst (attraction ns es (repulsion ns vs) ! k) =
            fst (vs ! k) + fst (net_repulsion ns k) + fst (net_spring ns es k)"
      "snd (attraction ns es (repulsion ns vs) ! k) =
            snd (vs ! k) + snd (net_repulsion ns k) + snd (net_spring ns es k)"
      unfolding nr sp using af as rf rs False by simp_all
    then show ?thesis using False by (simp add: prod_eq_iff f s)
  qed
qed

lemma UpdatePhysics_total:
  assumes len: "length (velocities g) = length (nodes g)"
    and es: "\<forall>e\<in>set (edges g). efrom e < length (nodes g) \<and> eto e < length (nodes g)"
    and k: "k < length (nodes g)"
  shows "dragging (nodes g ! k) \<Longrightarrow>
           nodes (UpdatePhysics g) ! k = nodes g ! k \<and>
           velocities (UpdatePhysics g) ! k = velocities g ! k"
    and "\<not> dragging (nodes g ! k) \<Longrightarrow>
           velocities (UpdatePhysics g) ! k =
             vec_scale 0.9 (vec_add (vec_add (velocities g ! k) (net_repulsion (nodes g) k))
                              (net_spring (nodes g) (edges g) k)) \<and>
           nodes (UpdatePhysics g) ! k =
             (nodes g ! k)\<lparr>position :=
                vec_add (position (nodes g ! k))
                  (vec_scale 0.5 (vec_add (vec_add (velocities g ! k) (net_repulsion (nodes g) k))
                                    (net_spring (nodes g) (edges g) k)))\<rparr>"
  using forces_total[OF len es k] k
  by (simp_all add: UpdatePhysics_nth integrate_node_def vec_scale_def vec_add_def)

lemma net_repulsion_moved:
  assumes "i < length ns" "dragging (ns ! i)" "i \<noteq> k"
  shows "net_repulsion (ns[i := (ns ! i)\<lparr>position := p\<rparr>]) k = net_repulsion ns k"
proof -
  let ?ns = "ns[i := (ns ! i)\<lparr>position := p\<rparr>]"
  have d: "dragging (?ns ! x) = dragging (ns ! x)" for x
    using assms(1) by (cases "x = i") simp_all
  have F: "filter (\<lambda>x. x \<noteq> k \<and> \<not> dragging (?ns ! x)) [0..<length ?ns] =
        filter (\<lambda>x. x \<noteq> k \<and> \<not> dragging (ns ! x)) [0..<length ns]"
    by (simp add: d del: nth_list_update_neq)
  have M: "map (\<lambda>x. repulsion_vector (position (?ns ! k)) (position (?ns ! x)))
                   (filter (\<lambda>x. x \<noteq> k \<and> \<not> dragging (ns ! x)) [0..<length ns]) =
                 map (\<lambda>x. repulsion_vector (position (ns ! k)) (position (ns ! x)))
                   (filter (\<lambda>x. x \<noteq> k \<and> \<not> dragging (ns ! x)) [0..<length ns])"
  proof (rule map_cong[OF refl])
    fix x assume "x \<in> set (filter (\<lambda>x. x \<noteq> k \<and> \<not> dragging (ns ! x)) [0..<length ns])"
    then have "x \<noteq> i" using assms(2) by auto
    then show "repulsion_vector (position (?ns ! k)) (position (?ns ! x)) =
               repulsion_vector (position (ns ! k)) (position (ns ! x))"
      using assms(3) by simp
  qed
  show ?thesis unfolding net_repulsion_def F M by (rule refl)
qed

lemma net_spring_moved:
  assumes "\<forall>e\<in>set es. efrom e \<noteq> i \<and> eto e \<noteq> i"
  shows "net_spring (ns[i := nd]) es k = net_spring ns es k"
proof -
  have M: "map (edge_spring (ns[i := nd])) (filter P es) = map (edge_spring ns) (filter P es)" for P
    by (rule map_cong[OF refl]) (use assms in \<open>auto simp: edge_spring_def\<close>)
  show ?thesis unfolding net_spring_def M by (rule refl)
qed

subsection \<open>Concrete steps\<close>

lemma sqrt_100: "sqrt 100 = 10"
  by (rule real_sqrt_unique) simp_all

lemma upt2: "[0..<2] = [0, 1]" "[1..<2] = [1]" "[2..<2] = []"
  by (simp_all add: upt_rec)

lemma lone_pair_pinned_step:
  "velocities (UpdatePhysics (lone_pair True)) = [(0, 0), (0, 0)]"
  "map position (nodes (UpdatePhysics (lone_pair True))) = [(100, 100), (110, 100)]"
  by (simp_all add: UpdatePhysics_def lone_pair_def fresh_def node_at_def default_Node_def
      repulsion_def repel_row_def repel_pair_def attraction_def integrate_node_def upt2 Let_def)

lemma lone_repulsion: "repulsion_vector (110, 100) (100, 100) = (20, 0)"
  by (simp add: repulsion_vector_def Let_def sqrt_100)

lemma lone_pair_free_step:
  "velocities (UpdatePhysics (lone_pair False)) = [(- 18, 0), (18, 0)]"
  "map position (nodes (UpdatePhysics (lone_pair False))) = [(90, 100), (120, 100)]"
  by (simp_all add: UpdatePhysics_def lone_pair_def fresh_def node_at_def default_Node_def
      repulsion_def repel_row_def repel_pair_def attraction_def integrate_node_def upt2 Let_def
      repulsion_vector_def sqrt_100 vec_add_def vec_sub_def)

subsection \<open>Two free nodes joined by one edge\<close>

lemma two_node_forces_01:
  assumes "\<not> dragging a" "\<not> dragging b" "efrom e = 0" "eto e = 1"
  shows "attraction [a, b] [e] (repulsion [a, b] [(0, 0), (0, 0)]) =
           [vec_add (repulsion_vector (position a) (position b))
              (spring_vector (position a) (position b)),
            vec_sub (vec_sub (0, 0) (repulsion_vector (position a) (position b)))
              (spring_vector (position a) (position b))]"
  using assms
  by (simp add: attraction_def repulsion_def repel_row_def repel_pair_def attract_edge_def
      upt2 Let_def vec_add_def vec_sub_def)

lemma two_node_forces_10:
  assumes "\<not> dragging a" "\<not> dragging b" "efrom e = 1" "eto e = 0"
  shows "attraction [a, b] [e] (repulsion [a, b] [(0, 0), (0, 0)]) =
           [vec_sub (repulsion_vector (position a) (position b))
              (spring_vector (position b) (position a)),
            vec_add (vec_sub (0, 0) (repulsion_vector (position a) (position b)))
              (spring_vector (position b) (position a))]"
  using assms
  by (simp add: attraction_def repulsion_def repel_row_def repel_pair_def attract_edge_def
      upt2 Let_def vec_add_def vec_sub_def)

lemma far_repulsion:
  assumes d: "d = sqrt ((x1 - x0) ^ 2 + (y1 - y0) ^ 2)" and far: "1 \<le> d"
  shows "repulsion_vector (x0, y0) (x1, y1) =
           ((x0 - x1) / d * (2000 / d ^ 2), (y0 - y1) / d * (2000 / d ^ 2))"
proof -
  have sq: "d ^ 2 = (x1 - x0) ^ 2 + (y1 - y0) ^ 2"
    unfolding d by (rule real_sqrt_pow2) simp
  have e: "(x0 - x1) * (x0 - x1) + (y0 - y1) * (y0 - y1) = d ^ 2"
    unfolding sq by (simp add: power2_eq_square algebra_simps)
  have "1 \<le> d ^ 2" using far by (rule one_le_power)
  then have ge: "\<not> d ^ 2 < 1" by simp
  have s: "sqrt (d ^ 2) = d" using far by simp
  show ?thesis
    unfolding repulsion_vector_def Let_def fst_conv snd_conv e using ge far by simp
qed

lemma far_spring:
  assumes d: "d = sqrt ((x1 - x0) ^ 2 + (y1 - y0) ^ 2)" and far: "1 \<le> d"
  shows "spring_vector (x0, y0) (x1, y1) =
           ((x1 - x0) / d * ((d - 100) * 0.02), (y1 - y0) / d * ((d - 100) * 0.02))"
    and "spring_vector (x1, y1) (x0, y0) =
           ((x0 - x1) / d * ((d - 100) * 0.02), (y0 - y1) / d * ((d - 100) * 0.02))"
proof -
  have e: "(x1 - x0) * (x1 - x0) + (y1 - y0) * (y1 - y0) = (x1 - x0) ^ 2 + (y1 - y0) ^ 2"
    "(x0 - x1) * (x0 - x1) + (y0 - y1) * (y0 - y1) = (x1 - x0) ^ 2 + (y1 - y0) ^ 2"
    by (simp_all add: power2_eq_square algebra_simps)
  have ge: "\<not> d < 1" using far by simp
  have s: "sqrt ((x1 - x0) * (x1 - x0) + (y1 - y0) * (y1 - y0)) = d"
    "sqrt ((x0 - x1) * (x0 - x1) + (y0 - y1) * (y0 - y1)) = d"
    unfolding e d by simp_all
  show "spring_vector (x0, y0) (x1, y1) =
           ((x1 - x0) / d * ((d - 100) * 0.02), (y1 - y0) / d * ((d - 100) * 0.02))"
    unfolding spring_vector_def Let_def fst_conv snd_conv s using ge by simp
  show "spring_vector (x1, y1) (x0, y0) =
           ((x0 - x1) / d * ((d - 100) * 0.02), (y0 - y1) / d * ((d - 100) * 0.02))"
    unfolding spring_vector_def Let_def fst_conv snd_conv s using ge by simp
qed

lemma scaled_length:
  fixes u v k :: real
  shows "sqrt ((u * k) ^ 2 + (v * k) ^ 2) = \<bar>k\<bar> * sqrt (u ^ 2 + v ^ 2)"
proof -
  have "(u * k) ^ 2 + (v * k) ^ 2 = k ^ 2 * (u ^ 2 + v ^ 2)"
    by (simp add: power2_eq_square algebra_simps)
  then show ?thesis by (simp add: real_sqrt_mult)
qed

lemma two_node_distance:
  assumes ns: "nodes g = [a, b]" and free: "\<not> dragging a" "\<not> dragging b"
    and vel: "velocities g = [(0, 0), (0, 0)]" and ed: "edges g = [e]"
    and dir: "(efrom e = 0 \<and> eto e = 1) \<or> (efrom e = 1 \<and> eto e = 0)"
    and far: "100 \<le> node_distance a b"
  shows "node_distance (nodes (UpdatePhysics g) ! 0) (nodes (UpdatePhysics g) ! 1) =
           node_distance a b - ((node_distance a b - 100) * 0.02 - 2000 / (node_distance a b) ^ 2)"
proof -
  obtain x0 y0 where pa: "position a = (x0, y0)" by (cases "position a")
  obtain x1 y1 where pb: "position b = (x1, y1)" by (cases "position b")
  define d where "d = node_distance a b"
  have d: "d = sqrt ((x1 - x0) ^ 2 + (y1 - y0) ^ 2)"
    by (simp add: d_def node_distance_def pa pb)
  have d100: "100 \<le> d" using far by (simp add: d_def)
  then have d1: "1 \<le> d" and d0: "0 < d" by simp_all
  define c where "c = ((d - 100) * 0.02 - 2000 / d ^ 2) / d"
  have vs: "attraction [a, b] [e] (repulsion [a, b] [(0, 0), (0, 0)]) =
              [((x1 - x0) * c, (y1 - y0) * c), ((x0 - x1) * c, (y0 - y1) * c)]"
  proof (cases "efrom e = 0")
    case True
    then have "eto e = 1" using dir by auto
    then show ?thesis
      using True d0
      by (simp add: two_node_forces_01[OF free True] pa pb far_repulsion[OF d d1]
          far_spring[OF d d1] vec_add_def vec_sub_def c_def field_simps)
  next
    case False
    then have e: "efrom e = 1" "eto e = 0" using dir by auto
    show ?thesis
      using d0
      by (simp add: two_node_forces_10[OF free e] pa pb far_repulsion[OF d d1]
          far_spring[OF d d1] vec_add_def vec_sub_def c_def field_simps)
  qed
  have p0: "position (nodes (UpdatePhysics g) ! 0) = (x0 + (x1 - x0) * c * 0.5, y0 + (y1 - y0) * c * 0.5)"
    and p1: "position (nodes (UpdatePhysics g) ! 1) = (x1 + (x0 - x1) * c * 0.5, y1 + (y0 - y1) * c * 0.5)"
    using free by (simp_all add: UpdatePhysics_def Let_def ns vel ed vs upt2 integrate_node_def pa pb)
  have "node_distance (nodes (UpdatePhysics g) ! 0) (nodes (UpdatePhysics g) ! 1) =
          sqrt (((x1 - x0) * (1 - c)) ^ 2 + ((y1 - y0) * (1 - c)) ^ 2)"
  proof -
    have "x1 + (x0 - x1) * c * 0.5 - (x0 + (x1 - x0) * c * 0.5) = (x1 - x0) * (1 - c)"
      "y1 + (y0 - y1) * c * 0.5 - (y0 + (y1 - y0) * c * 0.5) = (y1 - y0) * (1 - c)"
      by (simp_all add: algebra_simps)
    then show ?thesis
      unfolding node_distance_def p0 p1 fst_conv snd_conv by simp
  qed
  also have "\<dots> = \<bar>1 - c\<bar> * d" unfolding d by (rule scaled_length)
  also have "\<dots> = (1 - c) * d"
  proof -
    have "(d - 100) * 0.02 \<le> d" using d100 by simp
    moreover have "0 \<le> 2000 / d ^ 2" by simp
    ultimately have "(d - 100) * 0.02 - 2000 / d ^ 2 \<le> d" by linarith
    then have "c \<le> 1" using d0 by (simp add: c_def field_simps)
    then show ?thesis by simp
  qed
  also have "\<dots> = d - ((d - 100) * 0.02 - 2000 / d ^ 2)"
    using d0 by (simp add: c_def field_simps)
  finally show ?thesis by (simp add: d_def)
qed

lemma sqrt_40000: "sqrt 40000 = 200"
  by (rule real_sqrt_unique) simp_all

lemma linked_pair_nodes:
  "nodes (linked_pair d pinned) =
     [(node_at ''A'' (100, 100) pinned)\<lparr>connection_count := 1\<rparr>,
      (node_at ''B'' (100 + d, 100) False)\<lparr>connection_count := 1\<rparr>]"
  "velocities (linked_pair d pinned) = [(0, 0), (0, 0)]"
  "edges (linked_pair d pinned) = [\<lparr>efrom = 0, eto = 1, predicate = ''p''\<rparr>]"
  by (simp_all add: linked_pair_def fresh_def)

lemma linked_pair_distance:
  "0 \<le> d \<Longrightarrow>
   node_distance ((node_at ''A'' (100, 100) pinned)\<lparr>connection_count := 1\<rparr>)
     ((node_at ''B'' (100 + d, 100) False)\<lparr>connection_count := 1\<rparr>) = d"
  by (simp add: node_distance_def node_at_def default_Node_def)

lemma linked_pair_pinned_forces:
  "net_repulsion (nodes (linked_pair 200 True)) 1 = (0, 0)"
  "net_spring (nodes (linked_pair 200 True)) (edges (linked_pair 200 True)) 1 = (- 2, 0)"
  by (simp_all add: linked_pair_nodes net_repulsion_def net_spring_def vec_sum_def vec_sub_def
      edge_spring_def spring_vector_def node_at_def default_Node_def upt2 Let_def sqrt_40000)

subsection \<open>Claims about \<open>UpdatePhysics\<close>\<close>

text \<open>
  C3, as the code has it. For every node \<open>k\<close> of a graph whose edges and velocities fit
  its nodes, one step does this. A pinned node keeps its position and its velocity. A
  free node leaves the step with 0.9 times the total of its old velocity, the repulsion
  from every other node that is not pinned, and the spring force of every edge at the
  node, an edge to a pinned node included; its position advances by half that total. So
  a pinned node exerts spring forces and no repulsion: where no edge touches a pinned
  node, moving it changes nothing in what the step does to any other node.
\<close>

theorem pinned_node_step:
  assumes "length (velocities g) = length (nodes g)"
    and "\<forall>e\<in>set (edges g). efrom e < length (nodes g) \<and> eto e < length (nodes g)"
    and "k < length (nodes g)"
  shows "let ns = nodes g;
             g' = UpdatePhysics g;
             total = vec_add (vec_add (velocities g ! k) (net_repulsion ns k))
                       (net_spring ns (edges g) k)
         in (dragging (ns ! k) \<longrightarrow>
               nodes g' ! k = ns ! k \<and> velocities g' ! k = velocities g ! k) \<and>
            (\<not> dragging (ns ! k) \<longrightarrow>
               velocities g' ! k = vec_scale 0.9 total \<and>
               nodes g' ! k =
                 (ns ! k)\<lparr>position := vec_add (position (ns ! k)) (vec_scale 0.5 total)\<rparr>) \<and>
            (\<forall>i p. i < length ns \<and> i \<noteq> k \<and> dragging (ns ! i) \<and>
                   (\<forall>e\<in>set (edges g). efrom e \<noteq> i \<and> eto e \<noteq> i) \<longrightarrow>
               nodes (UpdatePhysics (g\<lparr>nodes := ns[i := (ns ! i)\<lparr>position := p\<rparr>]\<rparr>)) ! k =
                 nodes g' ! k \<and>
               velocities (UpdatePhysics (g\<lparr>nodes := ns[i := (ns ! i)\<lparr>position := p\<rparr>]\<rparr>)) ! k =
                 velocities g' ! k)"
proof -
  note t = UpdatePhysics_total[OF assms]
  have moved: "nodes (UpdatePhysics (g\<lparr>nodes := (nodes g)[i := (nodes g ! i)\<lparr>position := p\<rparr>]\<rparr>)) ! k =
                 nodes (UpdatePhysics g) ! k \<and>
               velocities (UpdatePhysics (g\<lparr>nodes := (nodes g)[i := (nodes g ! i)\<lparr>position := p\<rparr>]\<rparr>)) ! k =
                 velocities (UpdatePhysics g) ! k"
    if h: "i < length (nodes g) \<and> i \<noteq> k \<and> dragging (nodes g ! i) \<and>
           (\<forall>e\<in>set (edges g). efrom e \<noteq> i \<and> eto e \<noteq> i)" for i p
  proof -
    define g2 where "g2 = g\<lparr>nodes := (nodes g)[i := (nodes g ! i)\<lparr>position := p\<rparr>]\<rparr>"
    have n2: "nodes g2 = (nodes g)[i := (nodes g ! i)\<lparr>position := p\<rparr>]"
      and e2: "edges g2 = edges g" and v2: "velocities g2 = velocities g"
      by (simp_all add: g2_def)
    have a: "length (velocities g2) = length (nodes g2)"
      "\<forall>e\<in>set (edges g2). efrom e < length (nodes g2) \<and> eto e < length (nodes g2)"
      "k < length (nodes g2)"
      using assms by (simp_all add: n2 e2 v2)
    note t2 = UpdatePhysics_total[OF a]
    have same: "nodes g2 ! k = nodes g ! k" using h by (simp add: n2)
    have r: "net_repulsion (nodes g2) k = net_repulsion (nodes g) k"
      unfolding n2 using h by (intro net_repulsion_moved) simp_all
    have s: "net_spring (nodes g2) (edges g2) k = net_spring (nodes g) (edges g) k"
      unfolding n2 e2 using h by (intro net_spring_moved) simp
    show ?thesis
      unfolding g2_def[symmetric]
    proof (cases "dragging (nodes g ! k)")
      case True
      then show "nodes (UpdatePhysics g2) ! k = nodes (UpdatePhysics g) ! k \<and>
                 velocities (UpdatePhysics g2) ! k = velocities (UpdatePhysics g) ! k"
        using t(1) t2(1) same v2 by simp
    next
      case False
      then show "nodes (UpdatePhysics g2) ! k = nodes (UpdatePhysics g) ! k \<and>
                 velocities (UpdatePhysics g2) ! k = velocities (UpdatePhysics g) ! k"
        using t(2) t2(2) same r s v2 by simp
    qed
  qed
  show ?thesis
    unfolding Let_def using t moved by blast
qed

theorem pinned_node_step_witness:
  "length (velocities (linked_pair 200 True)) = length (nodes (linked_pair 200 True)) \<and>
   edges (linked_pair 200 True) = [\<lparr>efrom = 0, eto = 1, predicate = ''p''\<rparr>] \<and>
   dragging (nodes (linked_pair 200 True) ! 0) \<and>
   nodes (UpdatePhysics (linked_pair 200 True)) ! 0 = nodes (linked_pair 200 True) ! 0 \<and>
   velocities (UpdatePhysics (linked_pair 200 True)) ! 0 = velocities (linked_pair 200 True) ! 0 \<and>
   \<not> dragging (nodes (linked_pair 200 True) ! 1) \<and>
   net_repulsion (nodes (linked_pair 200 True)) 1 = (0, 0) \<and>
   net_spring (nodes (linked_pair 200 True)) (edges (linked_pair 200 True)) 1 = (- 2, 0) \<and>
   velocities (UpdatePhysics (linked_pair 200 True)) ! 1 = (- 1.8, 0) \<and>
   position (nodes (UpdatePhysics (linked_pair 200 True)) ! 1) = (299, 100) \<and>
   nodes (UpdatePhysics
            (lone_pair True\<lparr>nodes := (nodes (lone_pair True))
               [0 := (nodes (lone_pair True) ! 0)\<lparr>position := (105, 100)\<rparr>]\<rparr>)) ! 1 =
     nodes (UpdatePhysics (lone_pair True)) ! 1"
proof -
  let ?G = "linked_pair 200 True" and ?L = "lone_pair True"
  have h: "length (velocities ?G) = length (nodes ?G)"
    "\<forall>e\<in>set (edges ?G). efrom e < length (nodes ?G) \<and> eto e < length (nodes ?G)"
    by (simp_all add: linked_pair_nodes)
  have k: "0 < length (nodes ?G)" "1 < length (nodes ?G)" by (simp_all add: linked_pair_nodes)
  have d: "dragging (nodes ?G ! 0)" "\<not> dragging (nodes ?G ! 1)"
    by (simp_all add: linked_pair_nodes node_at_def)
  have e: "edges ?G = [\<lparr>efrom = 0, eto = 1, predicate = ''p''\<rparr>]" by (simp add: linked_pair_nodes)
  have pos: "position (nodes ?G ! 1) = (300, 100)" "velocities ?G ! 1 = (0, 0)"
    by (simp_all add: linked_pair_nodes node_at_def)
  have l: "length (velocities ?L) = length (nodes ?L)"
    "\<forall>e\<in>set (edges ?L). efrom e < length (nodes ?L) \<and> eto e < length (nodes ?L)"
    "1 < length (nodes ?L)"
    by (simp_all add: lone_pair_def fresh_def)
  have li: "0 < length (nodes ?L) \<and> (0::nat) \<noteq> 1 \<and> dragging (nodes ?L ! 0) \<and>
            (\<forall>e\<in>set (edges ?L). efrom e \<noteq> 0 \<and> eto e \<noteq> 0)"
    by (simp add: lone_pair_def fresh_def node_at_def)
  have "velocities (UpdatePhysics ?G) ! 1 =
          vec_scale 0.9 (vec_add (vec_add (velocities ?G ! 1) (net_repulsion (nodes ?G) 1))
                           (net_spring (nodes ?G) (edges ?G) 1)) \<and>
        nodes (UpdatePhysics ?G) ! 1 =
          (nodes ?G ! 1)\<lparr>position := vec_add (position (nodes ?G ! 1))
             (vec_scale 0.5 (vec_add (vec_add (velocities ?G ! 1) (net_repulsion (nodes ?G) 1))
                               (net_spring (nodes ?G) (edges ?G) 1)))\<rparr>"
    using pinned_node_step[OF h k(2)] d(2) unfolding Let_def by blast
  then have "velocities (UpdatePhysics ?G) ! 1 =
          vec_scale 0.9 (vec_add (vec_add (0, 0) (0, 0)) (- 2, 0)) \<and>
        nodes (UpdatePhysics ?G) ! 1 =
          (nodes ?G ! 1)\<lparr>position := vec_add (300, 100)
             (vec_scale 0.5 (vec_add (vec_add (0, 0) (0, 0)) (- 2, 0)))\<rparr>"
    by (simp only: linked_pair_pinned_forces pos)
  then have free: "velocities (UpdatePhysics ?G) ! 1 = (- 1.8, 0) \<and>
              position (nodes (UpdatePhysics ?G) ! 1) = (299, 100)"
    by (simp add: vec_add_def vec_scale_def)
  have pinned: "nodes (UpdatePhysics ?G) ! 0 = nodes ?G ! 0 \<and>
                velocities (UpdatePhysics ?G) ! 0 = velocities ?G ! 0"
    using pinned_node_step[OF h k(1)] d(1) unfolding Let_def by blast
  have moved: "nodes (UpdatePhysics (?L\<lparr>nodes := (nodes ?L)[0 := (nodes ?L ! 0)\<lparr>position := (105, 100)\<rparr>]\<rparr>)) ! 1 =
     nodes (UpdatePhysics ?L) ! 1"
    using pinned_node_step[OF l] li unfolding Let_def by blast
  show ?thesis
    using h(1) e d free pinned moved linked_pair_pinned_forces by blast
qed

text \<open>
  C3, as the specification states it, fails for repulsion. Two nodes without an edge, ten
  units apart and at rest: the repulsion between them is a vector of length 20, and with
  both free each leaves the step with speed 18; with the first pinned, the free one
  leaves the step with velocity 0, where it was.
\<close>

theorem pinned_repulsion_counterexample:
  "dragging (nodes (lone_pair True) ! 0) \<and>
   \<not> dragging (nodes (lone_pair True) ! 1) \<and>
   repulsion_vector (position (nodes (lone_pair True) ! 1)) (position (nodes (lone_pair True) ! 0)) = (20, 0) \<and>
   velocities (UpdatePhysics (lone_pair True)) ! 1 = (0, 0) \<and>
   position (nodes (UpdatePhysics (lone_pair True)) ! 1) = position (nodes (lone_pair True) ! 1) \<and>
   velocities (UpdatePhysics (lone_pair False)) ! 1 = (18, 0)"
proof -
  have n: "nodes (lone_pair True) = [node_at ''A'' (100, 100) True, node_at ''B'' (110, 100) False]"
    by (simp add: lone_pair_def fresh_def)
  have p: "position (nodes (UpdatePhysics (lone_pair True)) ! 1) =
             map position (nodes (UpdatePhysics (lone_pair True))) ! 1"
    by (simp add: UpdatePhysics_def Let_def n)
  show ?thesis
    unfolding p by (simp add: lone_pair_pinned_step lone_pair_free_step n node_at_def lone_repulsion)
qed

text \<open>
  C4, as the code has it (in exact arithmetic). Two free nodes at rest, joined by one
  edge, at a distance \<open>d\<close> of at least 100: one step takes the distance to
  \<open>d - (0.02 (d - 100) - 2000 / d\<^sup>2)\<close>. So the distance strictly decreases exactly when
  \<open>d\<^sup>2 (d - 100) > 100000\<close>, which holds from 109 on, and strictly increases up to
  108. At exactly 100 the spring force is zero (for either direction of the edge) and
  the repulsion is not, and the distance grows by 0.2.
\<close>

theorem two_node_step_distance:
  assumes "nodes g = [a, b]" and "\<not> dragging a" and "\<not> dragging b"
    and "velocities g = [(0, 0), (0, 0)]" and "edges g = [e]"
    and "(efrom e = 0 \<and> eto e = 1) \<or> (efrom e = 1 \<and> eto e = 0)"
    and "100 \<le> node_distance a b"
  shows "let d = node_distance a b;
             d' = node_distance (nodes (UpdatePhysics g) ! 0) (nodes (UpdatePhysics g) ! 1)
         in d' = d - ((d - 100) * 0.02 - 2000 / d ^ 2) \<and>
            (d' < d \<longleftrightarrow> 100000 < d ^ 2 * (d - 100)) \<and>
            (109 \<le> d \<longrightarrow> d' < d) \<and>
            (d \<le> 108 \<longrightarrow> d < d') \<and>
            (d = 100 \<longrightarrow>
               spring_vector (position a) (position b) = (0, 0) \<and>
               spring_vector (position b) (position a) = (0, 0) \<and>
               repulsion_vector (position a) (position b) \<noteq> (0, 0) \<and>
               d' = 100 + 0.2)"
proof -
  define d where "d = node_distance a b"
  define d' where "d' = node_distance (nodes (UpdatePhysics g) ! 0) (nodes (UpdatePhysics g) ! 1)"
  have d100: "100 \<le> d" using assms(7) by (simp add: d_def)
  then have d0: "0 < d" by simp
  have eq: "d' = d - ((d - 100) * 0.02 - 2000 / d ^ 2)"
    unfolding d'_def d_def by (rule two_node_distance[OF assms])
  have iff: "d' < d \<longleftrightarrow> 100000 < d ^ 2 * (d - 100)"
    using d0 by (simp add: eq field_simps)
  have big: "d' < d" if "109 \<le> d"
  proof -
    have "(109::real) ^ 2 \<le> d ^ 2" using that by (intro power_mono) simp_all
    moreover have "(9::real) \<le> d - 100" using that by simp
    ultimately have "(109::real) ^ 2 * 9 \<le> d ^ 2 * (d - 100)" by (intro mult_mono) simp_all
    then show ?thesis by (simp add: iff)
  qed
  have small: "d < d'" if "d \<le> 108"
  proof -
    have "d ^ 2 \<le> (108::real) ^ 2" using that d0 by (intro power_mono) simp_all
    moreover have "d - 100 \<le> (8::real)" using that by simp
    ultimately have "d ^ 2 * (d - 100) \<le> (108::real) ^ 2 * 8"
      using d100 by (intro mult_mono) simp_all
    then have "d ^ 2 * (d - 100) < 100000" by simp
    then show ?thesis using d0 by (simp add: eq field_simps)
  qed
  have rest: "spring_vector (position a) (position b) = (0, 0) \<and>
      spring_vector (position b) (position a) = (0, 0) \<and>
      repulsion_vector (position a) (position b) \<noteq> (0, 0) \<and> d' = 100 + 0.2" if "d = 100"
  proof -
    obtain x0 y0 where pa: "position a = (x0, y0)" by (cases "position a")
    obtain x1 y1 where pb: "position b = (x1, y1)" by (cases "position b")
    have dd: "d = sqrt ((x1 - x0) ^ 2 + (y1 - y0) ^ 2)"
      by (simp add: d_def node_distance_def pa pb)
    have d1: "1 \<le> d" using d100 by simp
    have "x0 \<noteq> x1 \<or> y0 \<noteq> y1" using dd that by auto
    then have r: "repulsion_vector (position a) (position b) \<noteq> (0, 0)"
      using that by (auto simp: pa pb far_repulsion[OF dd d1])
    have s: "spring_vector (position a) (position b) = (0, 0)"
      "spring_vector (position b) (position a) = (0, 0)"
      using that by (simp_all add: pa pb far_spring[OF dd d1])
    show ?thesis using r s that by (simp add: eq)
  qed
  show ?thesis
    unfolding Let_def d_def[symmetric] d'_def[symmetric] using eq iff big small rest by blast
qed

theorem two_node_step_distance_witness:
  "nodes (linked_pair 200 False) =
     [(node_at ''A'' (100, 100) False)\<lparr>connection_count := 1\<rparr>,
      (node_at ''B'' (100 + 200, 100) False)\<lparr>connection_count := 1\<rparr>] \<and>
   velocities (linked_pair 200 False) = [(0, 0), (0, 0)] \<and>
   node_distance ((node_at ''A'' (100, 100) False)\<lparr>connection_count := 1\<rparr>)
     ((node_at ''B'' (100 + 200, 100) False)\<lparr>connection_count := 1\<rparr>) = 200 \<and>
   node_distance (nodes (UpdatePhysics (linked_pair 200 False)) ! 0)
     (nodes (UpdatePhysics (linked_pair 200 False)) ! 1) = 198.05"
proof -
  let ?a = "(node_at ''A'' (100, 100) False)\<lparr>connection_count := 1\<rparr>"
  let ?b = "(node_at ''B'' (100 + 200, 100) False)\<lparr>connection_count := 1\<rparr>"
  let ?e = "\<lparr>efrom = 0, eto = 1, predicate = ''p''\<rparr>"
  have dist: "node_distance ?a ?b = 200" by (rule linked_pair_distance) simp
  have h: "nodes (linked_pair 200 False) = [?a, ?b]" "\<not> dragging ?a" "\<not> dragging ?b"
    "velocities (linked_pair 200 False) = [(0, 0), (0, 0)]"
    "edges (linked_pair 200 False) = [?e]"
    "(efrom ?e = 0 \<and> eto ?e = 1) \<or> (efrom ?e = 1 \<and> eto ?e = 0)"
    by (simp_all add: linked_pair_nodes node_at_def)
  have far: "100 \<le> node_distance ?a ?b" by (simp only: dist)
  show ?thesis
    using two_node_step_distance[OF h far] h(1,4) dist by (simp add: Let_def)
qed

text \<open>
  C4, as the specification states it, fails just above the rest length: at distance 101
  the spring pulls with 0.02 and the repulsion pushes with about 0.196, and the step
  moves the two nodes apart.
\<close>

theorem two_node_step_counterexample:
  "node_distance ((node_at ''A'' (100, 100) False)\<lparr>connection_count := 1\<rparr>)
     ((node_at ''B'' (100 + 101, 100) False)\<lparr>connection_count := 1\<rparr>) = 101 \<and>
   node_distance (nodes (UpdatePhysics (linked_pair 101 False)) ! 0)
     (nodes (UpdatePhysics (linked_pair 101 False)) ! 1) = 101 - (0.02 - 2000 / 10201) \<and>
   101 < node_distance (nodes (UpdatePhysics (linked_pair 101 False)) ! 0)
     (nodes (UpdatePhysics (linked_pair 101 False)) ! 1)"
proof -
  let ?a = "(node_at ''A'' (100, 100) False)\<lparr>connection_count := 1\<rparr>"
  let ?b = "(node_at ''B'' (100 + 101, 100) False)\<lparr>connection_count := 1\<rparr>"
  let ?e = "\<lparr>efrom = 0, eto = 1, predicate = ''p''\<rparr>"
  have dist: "node_distance ?a ?b = 101" by (rule linked_pair_distance) simp
  have h: "nodes (linked_pair 101 False) = [?a, ?b]" "\<not> dragging ?a" "\<not> dragging ?b"
    "velocities (linked_pair 101 False) = [(0, 0), (0, 0)]"
    "edges (linked_pair 101 False) = [?e]"
    "(efrom ?e = 0 \<and> eto ?e = 1) \<or> (efrom ?e = 1 \<and> eto ?e = 0)"
    by (simp_all add: linked_pair_nodes node_at_def)
  have far: "100 \<le> node_distance ?a ?b" by (simp only: dist)
  show ?thesis
    using two_node_distance[OF h far] dist by simp
qed

section \<open>Properties of \<open>calculatePageRank\<close>\<close>

subsection \<open>The map operations\<close>

lemma map_upd_keys: "fst ` set (map_upd k f m) = insert k (fst ` set m)"
  by (induction k f m rule: map_upd.induct) auto

lemma map_upd_keys': "set (map fst (map_upd k f m)) = insert k (set (map fst m))"
  using map_upd_keys[of k f m] by simp

lemma map_upd_sorted:
  "sorted_wrt (<) (map fst m) \<Longrightarrow> sorted_wrt (<) (map fst (map_upd k f m))"
proof (induction k f m rule: map_upd.induct)
  case (1 k f)
  then show ?case by simp
next
  case (2 k f k' v m)
  have mem: "a = k \<or> a \<in> fst ` set m" if "(a, b) \<in> set (map_upd k f m)" for a b
  proof -
    have "a \<in> fst ` set (map_upd k f m)" using that by force
    then show ?thesis by (simp add: map_upd_keys)
  qed
  show ?case
  proof (cases "k = k' \<or> k < k'")
    case True
    then show ?thesis using "2.prems" by auto
  next
    case False
    then have lt: "k' < k" by auto
    have "sorted_wrt (<) (map fst (map_upd k f m))"
      using "2.IH" "2.prems" False by simp
    moreover have "k' < a" if "(a, b) \<in> set (map_upd k f m)" for a b
      using mem[OF that] lt "2.prems" by auto
    ultimately show ?thesis using False by auto
  qed
qed

lemma map_get_upd:
  "sorted_wrt (<) (map fst m) \<Longrightarrow>
   map_get (map_upd k f m) j = (if j = k then f (map_get m k) else map_get m j)"
proof (induction m)
  case Nil
  then show ?case by (simp add: map_get_def)
next
  case (Cons p m)
  obtain k' v where p: "p = (k', v)" by (cases p)
  have fresh: "map_of m k = None" if "k < k'"
  proof -
    have "k \<notin> fst ` set m" using Cons.prems that by (auto simp: p)
    then show ?thesis by (simp add: map_of_eq_None_iff)
  qed
  show ?case
    using Cons fresh by (auto simp: p map_get_def)
qed

lemma fold_const_upd:
  assumes "sorted_wrt (<) (map fst m)"
  shows "sorted_wrt (<) (map fst (fold (\<lambda>i. map_upd i (\<lambda>x. c)) ks m))"
    and "fst ` set (fold (\<lambda>i. map_upd i (\<lambda>x. c)) ks m) = set ks \<union> fst ` set m"
    and "map_get (fold (\<lambda>i. map_upd i (\<lambda>x. c)) ks m) j = (if j \<in> set ks then c else map_get m j)"
proof -
  show "sorted_wrt (<) (map fst (fold (\<lambda>i. map_upd i (\<lambda>x. c)) ks m))"
    using assms by (induction ks arbitrary: m) (simp_all add: map_upd_sorted)
  show "fst ` set (fold (\<lambda>i. map_upd i (\<lambda>x. c)) ks m) = set ks \<union> fst ` set m"
    by (induction ks arbitrary: m) (simp_all add: map_upd_keys)
  show "map_get (fold (\<lambda>i. map_upd i (\<lambda>x. c)) ks m) j = (if j \<in> set ks then c else map_get m j)"
    using assms
  proof (induction ks arbitrary: m)
    case Nil
    then show ?case by simp
  next
    case (Cons k ks)
    have "map_get (fold (\<lambda>i. map_upd i (\<lambda>x. c)) ks (map_upd k (\<lambda>x. c) m)) j =
            (if j \<in> set ks then c else map_get (map_upd k (\<lambda>x. c) m) j)"
      by (rule Cons.IH) (simp add: map_upd_sorted Cons.prems)
    then show ?case by (simp add: map_get_upd Cons.prems)
  qed
qed

lemma give_sorted:
  "sorted_wrt (<) (map fst m) \<Longrightarrow> sorted_wrt (<) (map fst (give al cur i k m))"
  by (simp add: give_def map_upd_sorted)

lemma give_keys:
  "fst ` set (give al cur i k m) = (if out_degree al i > 0 then insert k (fst ` set m) else fst ` set m)"
  by (simp add: give_def map_upd_keys)

lemma give_value:
  "sorted_wrt (<) (map fst m) \<Longrightarrow>
   map_get (give al cur i k m) j =
     map_get m j + (if j = k \<and> out_degree al i > 0
                    then 0.85 * (map_get cur i / real (out_degree al i)) else 0)"
  by (simp add: give_def map_get_upd)

lemma fold_give_sorted:
  "sorted_wrt (<) (map fst m) \<Longrightarrow> sorted_wrt (<) (map fst (fold (give al cur i) nbrs m))"
  by (induction nbrs arbitrary: m) (simp_all add: give_sorted)

lemma fold_give_keys:
  "fst ` set (fold (give al cur i) nbrs m) =
     (if out_degree al i > 0 then set nbrs \<union> fst ` set m else fst ` set m)"
  by (induction nbrs arbitrary: m) (simp_all add: give_keys)

lemma fold_give_value:
  assumes "sorted_wrt (<) (map fst m)" and "distinct nbrs"
  shows "map_get (fold (give al cur i) nbrs m) j =
           map_get m j +
           (if j \<in> set nbrs \<and> out_degree al i > 0
            then 0.85 * (map_get cur i / real (out_degree al i)) else 0)"
  using assms
proof (induction nbrs arbitrary: m)
  case Nil
  then show ?case by simp
next
  case (Cons k ks)
  define c where "c = 0.85 * (map_get cur i / real (out_degree al i))"
  have d: "distinct ks" "k \<notin> set ks" using Cons.prems(2) by simp_all
  have "map_get (fold (give al cur i) ks (give al cur i k m)) j =
          map_get (give al cur i k m) j + (if j \<in> set ks \<and> out_degree al i > 0 then c else 0)"
    unfolding c_def by (rule Cons.IH[OF give_sorted[OF Cons.prems(1)] d(1)])
  also have "map_get (give al cur i k m) j =
          map_get m j + (if j = k \<and> out_degree al i > 0 then c else 0)"
    unfolding c_def by (rule give_value[OF Cons.prems(1)])
  finally have "map_get (fold (give al cur i) (k # ks) m) j =
      map_get m j + (if j = k \<and> out_degree al i > 0 then c else 0) +
      (if j \<in> set ks \<and> out_degree al i > 0 then c else 0)"
    by simp
  also have "\<dots> = map_get m j + (if j \<in> set (k # ks) \<and> out_degree al i > 0 then c else 0)"
    using d(2) by auto
  finally show ?case unfolding c_def .
qed

lemma fold_spread:
  assumes "sorted_wrt (<) (map fst m)"
    and "\<forall>i\<in>set is. distinct (al ! i) \<and> set (al ! i) \<subseteq> fst ` set m"
  shows "sorted_wrt (<) (map fst (fold (\<lambda>i. fold (give al cur i) (al ! i)) is m)) \<and>
         fst ` set (fold (\<lambda>i. fold (give al cur i) (al ! i)) is m) = fst ` set m \<and>
         map_get (fold (\<lambda>i. fold (give al cur i) (al ! i)) is m) j =
           map_get m j +
           (\<Sum>i\<leftarrow>is. if j \<in> set (al ! i) \<and> out_degree al i > 0
                       then 0.85 * (map_get cur i / real (out_degree al i)) else 0)"
  using assms
proof (induction "is" arbitrary: m)
  case Nil
  then show ?case by simp
next
  case (Cons i "is")
  define m' where "m' = fold (give al cur i) (al ! i) m"
  define c where "c = (\<lambda>i. if j \<in> set (al ! i) \<and> out_degree al i > 0
                       then 0.85 * (map_get cur i / real (out_degree al i)) else 0)"
  have di: "distinct (al ! i)" "set (al ! i) \<subseteq> fst ` set m"
    using Cons.prems(2) by simp_all
  have s: "sorted_wrt (<) (map fst m')"
    unfolding m'_def by (rule fold_give_sorted[OF Cons.prems(1)])
  have k: "fst ` set m' = fst ` set m"
    unfolding m'_def using di(2) by (auto simp: fold_give_keys)
  have v: "map_get m' j = map_get m j + c i"
    unfolding m'_def c_def by (rule fold_give_value[OF Cons.prems(1) di(1)])
  have rest: "\<forall>i\<in>set is. distinct (al ! i) \<and> set (al ! i) \<subseteq> fst ` set m'"
    using Cons.prems(2) k by simp
  have IH: "sorted_wrt (<) (map fst (fold (\<lambda>i. fold (give al cur i) (al ! i)) is m')) \<and>
         fst ` set (fold (\<lambda>i. fold (give al cur i) (al ! i)) is m') = fst ` set m' \<and>
         map_get (fold (\<lambda>i. fold (give al cur i) (al ! i)) is m') j =
           map_get m' j + (\<Sum>i\<leftarrow>is. c i)"
    unfolding c_def by (rule Cons.IH[OF s rest])
  have f: "fold (\<lambda>i. fold (give al cur i) (al ! i)) (i # is) m =
             fold (\<lambda>i. fold (give al cur i) (al ! i)) is m'"
    by (simp add: m'_def)
  have "map_get m' j + (\<Sum>i\<leftarrow>is. c i) = map_get m j + (\<Sum>i\<leftarrow>i # is. c i)"
    by (simp add: v)
  then show ?case
    unfolding f using IH k unfolding c_def by simp
qed

lemma keys_upt:
  assumes "sorted_wrt (<) (map fst m)" and "fst ` set m = {0..<n}"
  shows "map fst m = [0..<n]"
proof -
  have "sorted_wrt (<) [0..<n]" by simp
  moreover have "set [0..<n] = set (map fst m)" using assms(2) by simp
  ultimately show ?thesis using assms(1) strict_sorted_equal by blast
qed

lemma alist_by_keys:
  "distinct (map fst m) \<Longrightarrow> map (\<lambda>k. (k, map_get m k)) (map fst m) = m"
proof (induction m)
  case Nil
  then show ?case by simp
next
  case (Cons p m)
  obtain k v where p: "p = (k, v)" by (cases p)
  have d: "k \<notin> fst ` set m" "distinct (map fst m)" using Cons.prems by (simp_all add: p)
  have "map (\<lambda>k'. (k', map_get (p # m) k')) (map fst m) = map (\<lambda>k'. (k', map_get m k')) (map fst m)"
  proof (rule map_cong[OF refl])
    fix x assume "x \<in> set (map fst m)"
    then have "x \<noteq> k" using d(1) by auto
    then show "(x, map_get (p # m) x) = (x, map_get m x)" by (simp add: p map_get_def)
  qed
  also have "\<dots> = m" using Cons.IH[OF d(2)] .
  finally have "map (\<lambda>k'. (k', map_get (p # m) k')) (map fst m) = m" .
  moreover have "map_get (p # m) k = v" by (simp add: p map_get_def)
  ultimately show ?case by (simp add: p)
qed

lemma ranks_as_list:
  assumes "sorted_wrt (<) (map fst m)" and "fst ` set m = {0..<n}"
  shows "m = map (\<lambda>j. (j, map_get m j)) [0..<n]"
proof -
  have "distinct (map fst m)" using assms(1) strict_sorted_iff by blast
  then show ?thesis using alist_by_keys[of m] keys_upt[OF assms] by simp
qed

subsection \<open>The rounds\<close>

lemma init_ranks_ok:
  "sorted_wrt (<) (map fst (init_ranks n))"
  "fst ` set (init_ranks n) = {0..<n}"
  "map_get (init_ranks n) j = (if j < n then 1 / real n else 0)"
proof -
  have s: "sorted_wrt (<) (map fst ([] :: (nat \<times> real) list))" by simp
  show "sorted_wrt (<) (map fst (init_ranks n))"
    unfolding init_ranks_def by (rule fold_const_upd(1)[OF s])
  show "fst ` set (init_ranks n) = {0..<n}"
    unfolding init_ranks_def by (simp add: fold_const_upd(2)[OF s])
  have "map_get (init_ranks n) j = (if j \<in> set [0..<n] then 1 / real n else map_get [] j)"
    unfolding init_ranks_def by (rule fold_const_upd(3)[OF s])
  then show "map_get (init_ranks n) j = (if j < n then 1 / real n else 0)"
    by (simp add: map_get_def)
qed

lemma reset_ranks_ok:
  assumes "sorted_wrt (<) (map fst m)" and "fst ` set m \<subseteq> {0..<n}"
  shows "sorted_wrt (<) (map fst (reset_ranks n m))"
    and "fst ` set (reset_ranks n m) = {0..<n}"
    and "j < n \<Longrightarrow> map_get (reset_ranks n m) j = 1 - 0.85"
proof -
  show "sorted_wrt (<) (map fst (reset_ranks n m))"
    unfolding reset_ranks_def by (rule fold_const_upd(1)[OF assms(1)])
  show "fst ` set (reset_ranks n m) = {0..<n}"
    unfolding reset_ranks_def using assms(2) by (auto simp: fold_const_upd(2)[OF assms(1)])
  show "j < n \<Longrightarrow> map_get (reset_ranks n m) j = 1 - 0.85"
    unfolding reset_ranks_def by (simp add: fold_const_upd(3)[OF assms(1)])
qed

lemma spread_ok:
  assumes wf: "\<forall>i<n. distinct (al ! i) \<and> (\<forall>j\<in>set (al ! i). j < n)"
    and m: "sorted_wrt (<) (map fst m)" "fst ` set m = {0..<n}"
    and cur: "\<forall>i<n. map_get cur i = r i"
  shows "sorted_wrt (<) (map fst (spread al n cur m))"
    and "fst ` set (spread al n cur m) = {0..<n}"
    and "map_get (spread al n cur m) j =
           map_get m j +
           (\<Sum>i\<leftarrow>[0..<n]. if j \<in> set (al ! i) \<and> length (al ! i) \<noteq> 0
                          then 0.85 * r i / real (length (al ! i)) else 0)"
proof -
  have pre: "\<forall>i\<in>set [0..<n]. distinct (al ! i) \<and> set (al ! i) \<subseteq> fst ` set m"
    using wf m(2) by auto
  note f = fold_spread[OF m(1) pre, of cur j, folded spread_def]
  show "sorted_wrt (<) (map fst (spread al n cur m))" using f by blast
  show "fst ` set (spread al n cur m) = {0..<n}" using f m(2) by simp
  have "(\<Sum>i\<leftarrow>[0..<n]. if j \<in> set (al ! i) \<and> out_degree al i > 0
                       then 0.85 * (map_get cur i / real (out_degree al i)) else 0) =
        (\<Sum>i\<leftarrow>[0..<n]. if j \<in> set (al ! i) \<and> length (al ! i) \<noteq> 0
                          then 0.85 * r i / real (length (al ! i)) else 0)"
    by (rule arg_cong[where f = sum_list], rule map_cong[OF refl])
       (simp add: out_degree_def cur)
  then show "map_get (spread al n cur m) j =
           map_get m j +
           (\<Sum>i\<leftarrow>[0..<n]. if j \<in> set (al ! i) \<and> length (al ! i) \<noteq> 0
                          then 0.85 * r i / real (length (al ! i)) else 0)"
    using f by simp
qed

lemma rounds_ok:
  assumes wf: "\<forall>i<n. distinct (al ! i) \<and> (\<forall>j\<in>set (al ! i). j < n)"
  shows "sorted_wrt (<) (map fst (fst ((rank_round al n ^^ k) (init_ranks n, [])))) \<and>
         fst ` set (fst ((rank_round al n ^^ k) (init_ranks n, []))) = {0..<n} \<and>
         (\<forall>j<n. map_get (fst ((rank_round al n ^^ k) (init_ranks n, []))) j = spec_rank al n k j) \<and>
         sorted_wrt (<) (map fst (snd ((rank_round al n ^^ k) (init_ranks n, [])))) \<and>
         fst ` set (snd ((rank_round al n ^^ k) (init_ranks n, []))) \<subseteq> {0..<n}"
proof (induction k)
  case 0
  show ?case by (simp add: init_ranks_ok)
next
  case (Suc k)
  obtain cur new where st: "(rank_round al n ^^ k) (init_ranks n, []) = (cur, new)"
    by (cases "(rank_round al n ^^ k) (init_ranks n, [])")
  have cur: "\<forall>i<n. map_get cur i = spec_rank al n k i"
    and new: "sorted_wrt (<) (map fst new)" "fst ` set new \<subseteq> {0..<n}"
    using Suc by (simp_all add: st)
  define m where "m = reset_ranks n new"
  have m: "sorted_wrt (<) (map fst m)" "fst ` set m = {0..<n}"
    and mv: "\<And>j. j < n \<Longrightarrow> map_get m j = 1 - 0.85"
    unfolding m_def using reset_ranks_ok[OF new] by simp_all
  have step: "(rank_round al n ^^ Suc k) (init_ranks n, []) = (spread al n cur m, spread al n cur m)"
    by (simp add: st rank_round_def m_def Let_def)
  have v: "map_get (spread al n cur m) j = spec_rank al n (Suc k) j" if "j < n" for j
    using spread_ok(3)[OF wf m cur, of j] mv[OF that] by simp
  show ?case
    unfolding step using spread_ok(1,2)[OF wf m cur] v by simp
qed

lemma final_ranks_eq:
  assumes "\<forall>i<n. distinct (al ! i) \<and> (\<forall>j\<in>set (al ! i). j < n)"
  shows "final_ranks al n = map (\<lambda>j. (j, spec_rank al n 20 j)) [0..<n]"
proof -
  note r = rounds_ok[OF assms, of 20, folded final_ranks_def]
  have "final_ranks al n = map (\<lambda>j. (j, map_get (final_ranks al n) j)) [0..<n]"
    using r by (intro ranks_as_list) simp_all
  also have "\<dots> = map (\<lambda>j. (j, spec_rank al n 20 j)) [0..<n]"
    using r by (intro map_cong) simp_all
  finally show ?thesis .
qed

lemma fold_plus: "fold (\<lambda>p s. s + f p) xs (a::real) = a + sum_list (map f xs)"
  by (induction xs arbitrary: a) simp_all

lemma rank_sum_eq: "rank_sum (map (\<lambda>j. (j, r j)) js) = sum_list (map r js)"
  by (simp add: rank_sum_def fold_plus comp_def)

lemma variance_sum_eq:
  "variance_sum a (map (\<lambda>j. (j, r j)) js) = (\<Sum>x\<leftarrow>map r js. (x - a) ^ 2)"
  by (simp add: variance_sum_def fold_plus comp_def)

lemma calculatePageRank_eq:
  assumes "0 < length (nodes g)"
    and "\<forall>i<length (nodes g). distinct (adjacency_list g ! i) \<and>
           (\<forall>j\<in>set (adjacency_list g ! i). j < length (nodes g))"
  shows "page_rank_scores (calculatePageRank g) =
           map (\<lambda>j. (j, spec_rank (adjacency_list g) (length (nodes g)) 20 j)) [0..<length (nodes g)]"
    and "page_rank_average (calculatePageRank g) =
           mean (map (spec_rank (adjacency_list g) (length (nodes g)) 20) [0..<length (nodes g)])"
    and "page_rank_std_dev (calculatePageRank g) =
           population_std_dev (map (spec_rank (adjacency_list g) (length (nodes g)) 20) [0..<length (nodes g)])"
  using assms(1)
  by (simp_all add: calculatePageRank_def Let_def final_ranks_eq[OF assms(2)] rank_sum_eq
      variance_sum_eq mean_def population_std_dev_def)

lemma graph_ok_neighbours:
  assumes "graph_ok n g"
  shows "\<forall>i<n. distinct (adjacency_list g ! i) \<and> (\<forall>j\<in>set (adjacency_list g ! i). j < n)"
proof (intro allI impI conjI ballI)
  fix i assume i: "i < n"
  show "distinct (adjacency_list g ! i)" using assms i by (simp add: graph_ok_def)
  fix j assume "j \<in> set (adjacency_list g ! i)"
  then obtain e where e: "e \<in> set (edges g)"
    "(efrom e = i \<and> eto e = j) \<or> (efrom e = j \<and> eto e = i)"
    using adj_mem_iff[OF assms i, of j] by blast
  have "efrom e < n \<and> eto e < n" using assms e(1) by (simp add: graph_ok_def)
  then show "j < n" using e(2) by auto
qed

lemma ex_graph_ok: "graph_ok 4 ex_graph"
proof -
  have "node_count ex_triples = 4" by code_simp
  then show ?thesis using LoadTriples_ok[of ex_triples "\<lambda>k. 0" fresh] by (simp add: ex_graph_def)
qed

subsection \<open>Claims about \<open>calculatePageRank\<close>\<close>

text \<open>
  C5. For a graph with \<open>N > 0\<close> nodes whose adjacency sets hold node indices (as
  \<open>LoadTriples\<close> leaves them), \<open>calculatePageRank\<close> stores, for every node \<open>j\<close>, the
  rank that the recurrence of the specification gives after exactly 20 rounds from the
  uniform start \<open>1 / N\<close>: a round starts each node at \<open>1 - 0.85\<close> and adds
  \<open>0.85 * rank(i) / |adjacency-set(i)|\<close> for every \<open>i\<close> with \<open>j\<close> in its non-empty
  adjacency set. The stored average is the arithmetic mean of the final ranks and the
  stored deviation the population standard deviation (the variance sum divided by \<open>N\<close>).
\<close>

theorem calculatePageRank_refines_spec:
  assumes "0 < length (nodes g)"
    and "\<forall>i<length (nodes g). distinct (adjacency_list g ! i) \<and>
           (\<forall>j\<in>set (adjacency_list g ! i). j < length (nodes g))"
  shows "let n = length (nodes g);
             ranks = map (spec_rank (adjacency_list g) n 20) [0..<n];
             g' = calculatePageRank g
         in page_rank_scores g' = zip [0..<n] ranks \<and>
            page_rank_average g' = sum_list ranks / real n \<and>
            page_rank_average g' = mean ranks \<and>
            page_rank_std_dev g' = sqrt ((\<Sum>x\<leftarrow>ranks. (x - mean ranks) ^ 2) / real n) \<and>
            page_rank_std_dev g' = population_std_dev ranks"
proof -
  define n where "n = length (nodes g)"
  define ranks where "ranks = map (spec_rank (adjacency_list g) n 20) [0..<n]"
  have z: "zip [0..<n] ranks = map (\<lambda>j. (j, spec_rank (adjacency_list g) n 20 j)) [0..<n]"
    unfolding ranks_def by (simp add: zip_map2 zip_same_conv_map)
  have l: "length ranks = n" by (simp add: ranks_def)
  note c = calculatePageRank_eq[OF assms, folded n_def, folded ranks_def]
  show ?thesis
    unfolding Let_def n_def[symmetric] ranks_def[symmetric] z
    using c l by (simp add: mean_def population_std_dev_def)
qed

theorem calculatePageRank_refines_spec_witness:
  "0 < length (nodes ex_graph) \<and>
   adjacency_list ex_graph = [[1], [0, 2], [1], []] \<and>
   page_rank_scores (calculatePageRank ex_graph) =
     zip [0..<4] (map (spec_rank (adjacency_list ex_graph) 4 20) [0..<4]) \<and>
   page_rank_average (calculatePageRank ex_graph) =
     mean (map (spec_rank (adjacency_list ex_graph) 4 20) [0..<4]) \<and>
   page_rank_std_dev (calculatePageRank ex_graph) =
     population_std_dev (map (spec_rank (adjacency_list ex_graph) 4 20) [0..<4]) \<and>
   spec_rank (adjacency_list ex_graph) 4 20 3 = 0.15"
proof -
  have h1: "0 < length (nodes ex_graph)" by (simp add: ex_graph_sizes)
  have h2: "\<forall>i<length (nodes ex_graph). distinct (adjacency_list ex_graph ! i) \<and>
           (\<forall>j\<in>set (adjacency_list ex_graph ! i). j < length (nodes ex_graph))"
    unfolding ex_graph_sizes by (rule graph_ok_neighbours[OF ex_graph_ok])
  have z: "(\<Sum>i\<leftarrow>[0..<4]. if 3 \<in> set (adjacency_list ex_graph ! i) \<and> length (adjacency_list ex_graph ! i) \<noteq> 0
              then 0.85 * spec_rank (adjacency_list ex_graph) 4 19 i / real (length (adjacency_list ex_graph ! i))
              else 0) = 0"
    by (simp add: ex_graph_adjacency upt_rec)
  have "spec_rank (adjacency_list ex_graph) 4 (Suc 19) 3 = (1 - 0.85) + 0"
    unfolding spec_rank.simps z by (rule refl)
  then have iso: "spec_rank (adjacency_list ex_graph) 4 20 3 = 0.15" by simp
  show ?thesis
    using calculatePageRank_refines_spec[OF h1 h2] h1 iso
    unfolding Let_def ex_graph_sizes by (simp add: ex_graph_adjacency)
qed

section \<open>Lemmas about \<open>calculatePageRank\<close> with rounding\<close>

subsection \<open>Equal adjacency-set sizes give equal ranks\<close>






















subsection \<open>Rounding, evaluated\<close>

lemma normalise_numeral:
  "normalise (numeral k) B a sc =
     (if 2 * B \<le> a then normalise (pred_numeral k) B (a / 2) (sc * 2)
      else if a < B then normalise (pred_numeral k) B (a * 2) (sc / 2)
      else (a, sc))"
  by (simp add: numeral_eq_Suc)




lemmas round_eval =
  binary32_def binary64_def round_to_def round_half_even_def Let_def normalise_numeral
  power2_eq_square


text \<open>
  Some roundings: \<open>0.85f\<close>; a number with a 24-bit significand is kept; a tie goes to
  the even neighbour, downwards at \<open>1 + 2 ^ -24\<close> and upwards at \<open>1 + 3 * 2 ^ -24\<close>;
  the sign is kept.
\<close>

lemma binary32_examples:
  "binary32 0.85 = 14260634 / 2 ^ 24"
  "binary32 (16343698 / 2 ^ 24) = 16343698 / 2 ^ 24"
  "binary32 (1 + 1 / 2 ^ 24) = 1"
  "binary32 (1 + 3 / 2 ^ 24) = 1 + 4 / 2 ^ 24"
  "binary32 (- (1 + 3 / 2 ^ 24)) = - (1 + 4 / 2 ^ 24)"
  "binary32 (1 / 3) = 11184811 / 2 ^ 25"
  by (simp_all add: round_eval)




















subsection \<open>Claim about graphs with equal adjacency-set sizes\<close>




end
